theory Spec2Isabelle
  imports Main
begin

section \<open>Parser: tokens, syntax tree, outcomes\<close>

text \<open>
  The parser's own token kinds and node kinds.  A syntax tree node owns an ordered
  vector of child pointers; a null pointer in a slot is \<open>None\<close>.
\<close>

datatype TokenType =
  TOKEN_ID | TOKEN_NUM | TOKEN_FLOAT | TOKEN_BOOL | TOKEN_KEYWORD | TOKEN_OP | TOKEN_SEP | TOKEN_ERROR

datatype NodeType =
  NODE_EXPR | NODE_BOOL | NODE_DECLS | NODE_STMTS | NODE_ASSIGN | NODE_IF | NODE_WHILE | NODE_FOR
| NODE_READ | NODE_WRITE | NODE_BLOCK | NODE_OP | NODE_ID | NODE_NUM | NODE_FLOAT | NODE_BOOLVAL
| NODE_TYPE | NODE_LIST

datatype TreeNode =
  TreeNode (node_type: NodeType) (node_value: string) (children: "TreeNode option list")

record Token =
  tok_type :: TokenType
  tok_value :: string

text \<open>A token written as the pair of its kind and its text.\<close>

definition tok :: "TokenType \<Rightarrow> string \<Rightarrow> Token" where
  "tok ty v = \<lparr>tok_type = ty, tok_value = v\<rparr>"

record Parser =
  tokens :: "Token list"
  current :: nat

text \<open>
  A parser routine either returns (\<open>Ok\<close>), or prints a diagnostic and exits the process
  (\<open>Fatal\<close> with the printed line).  \<open>Timeout\<close> is produced only by the step-indexed
  statement routines below when their step budget is used up; it is not a behaviour of
  the program.
\<close>

datatype 'a result = Ok 'a | Fatal string | Timeout

fun rbind :: "'a result \<Rightarrow> ('a \<Rightarrow> 'b result) \<Rightarrow> 'b result" where
  "rbind (Ok x) f = f x"
| "rbind (Fatal e) f = Fatal e"
| "rbind Timeout f = Timeout"

lemma rbind_cong [fundef_cong]:
  "m = m' \<Longrightarrow> (\<And>x. m' = Ok x \<Longrightarrow> f x = f' x) \<Longrightarrow> rbind m f = rbind m' f'"
  by (cases m') auto

lemma rbind_Ok: "rbind m f = Ok y \<longleftrightarrow> (\<exists>x. m = Ok x \<and> f x = Ok y)"
  by (cases m) auto

subsection \<open>Token accessors\<close>

definition sentinel :: Token where
  "sentinel = \<lparr>tok_type = TOKEN_ERROR, tok_value = ''''\<rparr>"

definition peek :: "Parser \<Rightarrow> Token" where
  "peek p = (if current p < length (tokens p) then tokens p ! current p else sentinel)"

definition previous :: "Parser \<Rightarrow> Token" where
  "previous p = (if current p > 0 then tokens p ! (current p - 1) else sentinel)"

definition isAtEnd :: "Parser \<Rightarrow> bool" where
  "isAtEnd p \<longleftrightarrow> tok_type (peek p) = TOKEN_ERROR \<and> tok_value (peek p) = []"

definition advance :: "Parser \<Rightarrow> Token \<times> Parser" where
  "advance p =
     (let p' = (if \<not> isAtEnd p then p\<lparr>current := current p + 1\<rparr> else p)
      in (previous p', p'))"

definition check1 :: "Parser \<Rightarrow> TokenType \<Rightarrow> bool" where
  "check1 p ty = (if isAtEnd p then False else tok_type (peek p) = ty)"

definition check2 :: "Parser \<Rightarrow> TokenType \<Rightarrow> string \<Rightarrow> bool" where
  "check2 p ty v = (if isAtEnd p then False else tok_type (peek p) = ty \<and> tok_value (peek p) = v)"

definition match1 :: "Parser \<Rightarrow> TokenType \<Rightarrow> bool \<times> Parser" where
  "match1 p ty = (if check1 p ty then (True, snd (advance p)) else (False, p))"

definition match2 :: "Parser \<Rightarrow> TokenType \<Rightarrow> string \<Rightarrow> bool \<times> Parser" where
  "match2 p ty v = (if check2 p ty v then (True, snd (advance p)) else (False, p))"

definition error :: "Parser \<Rightarrow> string \<Rightarrow> 'a result" where
  "error p message = Fatal (''Syntax error: '' @ message @ '' at token: '' @ tok_value (peek p))"

definition consume1 :: "Parser \<Rightarrow> TokenType \<Rightarrow> string \<Rightarrow> Parser result" where
  "consume1 p ty message = (if check1 p ty then Ok (snd (advance p)) else error p message)"

definition consume2 :: "Parser \<Rightarrow> TokenType \<Rightarrow> string \<Rightarrow> string \<Rightarrow> Parser result" where
  "consume2 p ty v message =
     (if check2 p ty v then Ok (snd (advance p))
      else error p (message @ '' (Actual: '' @ tok_value (peek p) @ '')''))"

text \<open>The index never passes the end of the token vector.\<close>

definition wf_parser :: "Parser \<Rightarrow> bool" where
  "wf_parser p \<longleftrightarrow> current p \<le> length (tokens p)"

subsection \<open>Expression engine\<close>

text \<open>
  The precedence table is a hash map read with \<open>operator[]\<close>, which yields 0 for a key
  that is not in the table (and stores that 0, so a later read gives 0 again).
\<close>

definition precedence_table :: "(string \<times> int) list" where
  "precedence_table =
     [(''||'', 1), (''&&'', 2),
      (''=='', 3), (''!='', 3), (''<'', 3), (''<='', 3), (''>'', 3), (''>='', 3),
      (''+'', 4), (''-'', 4),
      (''*'', 5), (''/'', 5), (''%'', 5),
      (''!'', 6), (''++'', 6), (''--'', 6)]"

definition precedence :: "string \<Rightarrow> int" where
  "precedence op = (case map_of precedence_table op of Some n \<Rightarrow> n | None \<Rightarrow> 0)"

text \<open>
  \<open>processOp\<close>: the callers test that the operator stack is not empty and hand over its
  top \<open>op\<close>; the operand stack is a list with its top at the head.
\<close>

definition processOp :: "Parser \<Rightarrow> string \<Rightarrow> TreeNode list \<Rightarrow> TreeNode list result" where
  "processOp p op ns =
     (if op = ''!'' \<or> op = ''++'' \<or> op = ''--'' then
        (case ns of
           [] \<Rightarrow> error p ''Missing operand for unary operator''
         | n # ns' \<Rightarrow> Ok (TreeNode NODE_OP op [Some n] # ns'))
      else
        (case ns of
           right # left # ns' \<Rightarrow> Ok (TreeNode NODE_OP op [Some left, Some right] # ns')
         | _ \<Rightarrow> error p ''Missing operands for binary operator''))"

text \<open>The reduction loop run at a closing parenthesis.\<close>

fun reduce_paren :: "Parser \<Rightarrow> TreeNode list \<Rightarrow> string list \<Rightarrow> (TreeNode list \<times> string list) result" where
  "reduce_paren p ns [] = Ok (ns, [])"
| "reduce_paren p ns (tp # os) =
     (if tp \<noteq> ''('' then rbind (processOp p tp ns) (\<lambda>ns'. reduce_paren p ns' os)
      else Ok (ns, tp # os))"

text \<open>After that loop the opening parenthesis must be on top; it is popped.\<close>

fun pop_paren :: "Parser \<Rightarrow> TreeNode list \<Rightarrow> string list \<Rightarrow> (Parser \<times> TreeNode list \<times> string list) result" where
  "pop_paren p ns [] = error p ''Unmatched parentheses''"
| "pop_paren p ns (tp # os) = Ok (p, ns, os)"

text \<open>The reduction loop run before an incoming operator is pushed.\<close>

fun reduce_prec :: "Parser \<Rightarrow> string \<Rightarrow> TreeNode list \<Rightarrow> string list \<Rightarrow> (TreeNode list \<times> string list) result" where
  "reduce_prec p op ns [] = Ok (ns, [])"
| "reduce_prec p op ns (tp # os) =
     (if tp \<noteq> ''('' \<and> precedence tp \<ge> precedence op
      then rbind (processOp p tp ns) (\<lambda>ns'. reduce_prec p op ns' os)
      else Ok (ns, tp # os))"

text \<open>The drain loop after the main loop.\<close>

fun drain :: "Parser \<Rightarrow> TreeNode list \<Rightarrow> string list \<Rightarrow> TreeNode list result" where
  "drain p ns [] = Ok ns"
| "drain p ns (tp # os) =
     (if tp = ''('' then error p ''Unmatched parentheses''
      else rbind (processOp p tp ns) (\<lambda>ns'. drain p ns' os))"

definition expr_continue :: "Parser \<Rightarrow> bool" where
  "expr_continue p \<longleftrightarrow>
     \<not> isAtEnd p \<and> \<not> check2 p TOKEN_SEP '';'' \<and> \<not> check2 p TOKEN_SEP '','' \<and>
     \<not> check2 p TOKEN_KEYWORD ''then'' \<and> \<not> check2 p TOKEN_KEYWORD ''do'' \<and>
     \<not> check2 p TOKEN_KEYWORD ''else'' \<and> \<not> check2 p TOKEN_SEP ''{''"

text \<open>The operand branch of the main loop.\<close>

definition parse_operand :: "Parser \<Rightarrow> (TreeNode \<times> Parser) result" where
  "parse_operand p =
     (if fst (match1 p TOKEN_ID) then
        (let p1 = snd (match1 p TOKEN_ID) in Ok (TreeNode NODE_ID (tok_value (previous p1)) [], p1))
      else if fst (match1 p TOKEN_NUM) then
        (let p1 = snd (match1 p TOKEN_NUM) in Ok (TreeNode NODE_NUM (tok_value (previous p1)) [], p1))
      else if fst (match1 p TOKEN_FLOAT) then
        (let p1 = snd (match1 p TOKEN_FLOAT) in Ok (TreeNode NODE_FLOAT (tok_value (previous p1)) [], p1))
      else if fst (match1 p TOKEN_BOOL) then
        (let p1 = snd (match1 p TOKEN_BOOL) in Ok (TreeNode NODE_BOOLVAL (tok_value (previous p1)) [], p1))
      else error p ''Expected operand in expression'')"

text \<open>One iteration of the main loop; the stacks are threaded through.\<close>

definition expr_step :: "Parser \<Rightarrow> TreeNode list \<Rightarrow> string list \<Rightarrow> (Parser \<times> TreeNode list \<times> string list) result" where
  "expr_step p ns os =
     (if fst (match2 p TOKEN_SEP ''('') then Ok (snd (match2 p TOKEN_SEP ''(''), ns, ''('' # os)
      else if fst (match2 p TOKEN_SEP '')'') then
        (let p1 = snd (match2 p TOKEN_SEP '')'') in
         rbind (reduce_paren p1 ns os) (\<lambda>(ns', os'). pop_paren p1 ns' os'))
      else if fst (match1 p TOKEN_OP) then
        (let p1 = snd (match1 p TOKEN_OP);
             op0 = tok_value (previous p1);
             op = (if op0 = ''-'' \<and> (ns = [] \<or> (os \<noteq> [] \<and> hd os = ''('')) then ''neg'' else op0)
         in rbind (reduce_prec p1 op ns os) (\<lambda>(ns', os'). Ok (p1, ns', op # os')))
      else rbind (parse_operand p) (\<lambda>(operand, p1). Ok (p1, operand # ns, os)))"

lemma advance_current: "\<not> isAtEnd p \<Longrightarrow> current (snd (advance p)) = Suc (current p)"
  by (simp add: advance_def Let_def)

lemma advance_tokens: "tokens (snd (advance p)) = tokens p"
  by (simp add: advance_def Let_def)

lemma not_isAtEnd_less: "\<not> isAtEnd p \<Longrightarrow> current p < length (tokens p)"
  by (auto simp: isAtEnd_def peek_def sentinel_def split: if_splits)

lemma match1_step:
  "fst (match1 p ty) \<Longrightarrow>
     tokens (snd (match1 p ty)) = tokens p \<and> current (snd (match1 p ty)) = Suc (current p) \<and>
     current p < length (tokens p)"
  by (auto simp: match1_def check1_def advance_tokens advance_current not_isAtEnd_less
        split: if_splits)

lemma match2_step:
  "fst (match2 p ty v) \<Longrightarrow>
     tokens (snd (match2 p ty v)) = tokens p \<and> current (snd (match2 p ty v)) = Suc (current p) \<and>
     current p < length (tokens p)"
  by (auto simp: match2_def check2_def advance_tokens advance_current not_isAtEnd_less
        split: if_splits)

lemma parse_operand_step:
  "parse_operand p = Ok (n, p1) \<Longrightarrow>
     tokens p1 = tokens p \<and> current p1 = Suc (current p) \<and> current p < length (tokens p)"
  by (auto simp: parse_operand_def Let_def error_def split: if_splits dest: match1_step)

lemma expr_step_step:
  assumes "expr_step p ns os = Ok (p1, ns', os')"
  shows "tokens p1 = tokens p \<and> current p1 = Suc (current p) \<and> current p < length (tokens p)"
proof (cases "fst (match2 p TOKEN_SEP ''('')")
  case True
  with assms match2_step [OF True] show ?thesis by (auto simp: expr_step_def)
next
  case n1: False
  show ?thesis
  proof (cases "fst (match2 p TOKEN_SEP '')'')")
    case True
    with n1 assms have "p1 = snd (match2 p TOKEN_SEP '')'')"
      by (auto simp: expr_step_def Let_def rbind_Ok error_def elim!: pop_paren.elims)
    with match2_step [OF True] show ?thesis by simp
  next
    case n2: False
    show ?thesis
    proof (cases "fst (match1 p TOKEN_OP)")
      case True
      with n1 n2 assms have "p1 = snd (match1 p TOKEN_OP)"
        by (auto simp: expr_step_def Let_def rbind_Ok)
      with match1_step [OF True] show ?thesis by simp
    next
      case False
      with n1 n2 assms obtain operand where "parse_operand p = Ok (operand, p1)"
        by (auto simp: expr_step_def rbind_Ok)
      then show ?thesis by (rule parse_operand_step)
    qed
  qed
qed

function expr_loop :: "Parser \<Rightarrow> TreeNode list \<Rightarrow> string list \<Rightarrow> (Parser \<times> TreeNode list \<times> string list) result" where
  "expr_loop p ns os =
     (if expr_continue p
      then rbind (expr_step p ns os) (\<lambda>(p1, ns', os'). expr_loop p1 ns' os')
      else Ok (p, ns, os))"
  by pat_completeness auto
termination
  by (relation "measure (\<lambda>(p, ns, os). length (tokens p) - current p)")
     (auto dest!: expr_step_step)

declare expr_loop.simps [simp del]

text \<open>After the drain loop exactly one operand must remain; it is wrapped in an expression node.\<close>

fun finish_expr :: "Parser \<Rightarrow> TreeNode list \<Rightarrow> (TreeNode \<times> Parser) result" where
  "finish_expr p [] = error p ''Empty expression''"
| "finish_expr p [n] = Ok (TreeNode NODE_EXPR [] [Some n], p)"
| "finish_expr p (n # m # ns) = error p ''Malformed expression''"

definition parseArithmeticExpr :: "Parser \<Rightarrow> (TreeNode \<times> Parser) result" where
  "parseArithmeticExpr p =
     (if check2 p TOKEN_SEP '';'' then error p ''Empty expression not allowed here''
      else
        rbind (expr_loop p [] []) (\<lambda>(p1, nodeStack, opStack).
        rbind (drain p1 nodeStack opStack) (\<lambda>nodeStack'. finish_expr p1 nodeStack')))"

definition is_relop :: "Parser \<Rightarrow> bool" where
  "is_relop p \<longleftrightarrow>
     check2 p TOKEN_OP ''>'' \<or> check2 p TOKEN_OP ''<'' \<or> check2 p TOKEN_OP ''>='' \<or>
     check2 p TOKEN_OP ''<='' \<or> check2 p TOKEN_OP ''=='' \<or> check2 p TOKEN_OP ''!=''"

definition parseBoolExpr :: "Parser \<Rightarrow> (TreeNode \<times> Parser) result" where
  "parseBoolExpr p =
     rbind (parseArithmeticExpr p) (\<lambda>(left, p1).
       if check2 p1 TOKEN_SEP ''{'' then Ok (left, p1)
       else if is_relop p1 then
         (case advance p1 of (op, p2) \<Rightarrow>
            rbind (parseArithmeticExpr p2) (\<lambda>(right, p3).
              Ok (TreeNode NODE_BOOL (tok_value op) [Some left, Some right], p3)))
       else Ok (left, p1))"

subsection \<open>Declarations\<close>

lemma check1_less: "check1 p ty \<Longrightarrow> current p < length (tokens p)"
  by (auto simp: check1_def not_isAtEnd_less split: if_splits)

lemma check2_less: "check2 p ty v \<Longrightarrow> current p < length (tokens p)"
  by (auto simp: check2_def not_isAtEnd_less split: if_splits)

lemma check1_advance: "check1 p ty \<Longrightarrow> current (snd (advance p)) = Suc (current p)"
  by (auto simp: check1_def advance_current split: if_splits)

lemma check2_advance: "check2 p ty v \<Longrightarrow> current (snd (advance p)) = Suc (current p)"
  by (auto simp: check2_def advance_current split: if_splits)

lemma consume1_step:
  "consume1 p ty m = Ok p1 \<Longrightarrow>
     tokens p1 = tokens p \<and> current p1 = Suc (current p) \<and> current p < length (tokens p)"
  by (auto simp: consume1_def error_def advance_tokens check1_advance check1_less split: if_splits)

lemma consume2_step:
  "consume2 p ty v m = Ok p1 \<Longrightarrow>
     tokens p1 = tokens p \<and> current p1 = Suc (current p) \<and> current p < length (tokens p)"
  by (auto simp: consume2_def error_def advance_tokens check2_advance check2_less split: if_splits)

lemma match2_mono:
  "tokens (snd (match2 p ty v)) = tokens p \<and> current p \<le> current (snd (match2 p ty v))"
  by (auto simp: match2_def advance_tokens check2_advance split: if_splits)

lemma expr_loop_mono:
  "expr_loop p ns os = Ok (p1, ns', os') \<Longrightarrow> tokens p1 = tokens p \<and> current p \<le> current p1"
proof (induction p ns os rule: expr_loop.induct)
  case (1 p ns os)
  show ?case
  proof (cases "expr_continue p")
    case False
    with "1.prems" show ?thesis by (simp add: expr_loop.simps)
  next
    case True
    with "1.prems" obtain q nsq osq where
      st: "expr_step p ns os = Ok (q, nsq, osq)" and lp: "expr_loop q nsq osq = Ok (p1, ns', os')"
      by (auto simp: expr_loop.simps [of p] rbind_Ok)
    from expr_step_step [OF st] "1.IH" [OF True st refl refl lp]
    show ?thesis by simp
  qed
qed

lemma parseArithmeticExpr_mono:
  "parseArithmeticExpr p = Ok (e, p1) \<Longrightarrow> tokens p1 = tokens p \<and> current p \<le> current p1"
proof -
  assume a: "parseArithmeticExpr p = Ok (e, p1)"
  then obtain q ns os where l: "expr_loop p [] [] = Ok (q, ns, os)"
    by (auto simp: parseArithmeticExpr_def error_def rbind_Ok split: if_splits)
  with a have "q = p1"
    by (auto simp: parseArithmeticExpr_def error_def rbind_Ok split: if_splits
          elim!: finish_expr.elims)
  with expr_loop_mono [OF l] show ?thesis by simp
qed

lemma parseBoolExpr_mono:
  assumes "parseBoolExpr p = Ok (e, p1)"
  shows "tokens p1 = tokens p \<and> current p \<le> current p1"
proof -
  from assms obtain l q where a: "parseArithmeticExpr p = Ok (l, q)"
    by (auto simp: parseBoolExpr_def rbind_Ok)
  note m = parseArithmeticExpr_mono [OF a]
  show ?thesis
  proof (cases "\<not> check2 q TOKEN_SEP ''{'' \<and> is_relop q")
    case False
    with assms a m show ?thesis by (auto simp: parseBoolExpr_def split: if_splits)
  next
    case True
    with assms a obtain r where
      b: "parseArithmeticExpr (snd (advance q)) = Ok (r, p1)"
      by (auto simp: parseBoolExpr_def rbind_Ok split: prod.splits)
    from True have "current (snd (advance q)) = Suc (current q)"
      by (auto simp: is_relop_def check2_advance)
    with parseArithmeticExpr_mono [OF b] m show ?thesis
      by (simp add: advance_tokens)
  qed
qed

text \<open>
  The initializer of a declared variable: the boolean entry for type \<open>bool\<close>, the
  arithmetic entry otherwise.
\<close>

definition parse_init :: "string \<Rightarrow> Parser \<Rightarrow> (TreeNode \<times> Parser) result" where
  "parse_init ty p = (if ty = ''bool'' then parseBoolExpr p else parseArithmeticExpr p)"

lemma parse_init_mono:
  "parse_init ty p = Ok (e, p1) \<Longrightarrow> tokens p1 = tokens p \<and> current p \<le> current p1"
  by (auto simp: parse_init_def split: if_splits dest: parseBoolExpr_mono parseArithmeticExpr_mono)

text \<open>An identifier with its optional initializer, appended to the children collected so far.\<close>

definition declarator :: "string \<Rightarrow> string \<Rightarrow> Parser \<Rightarrow> TreeNode option list \<Rightarrow> (TreeNode option list \<times> Parser) result" where
  "declarator message ty p kids =
     rbind (consume1 p TOKEN_ID message) (\<lambda>p1.
       let kids1 = kids @ [Some (TreeNode NODE_ID (tok_value (previous p1)) [])] in
       if fst (match2 p1 TOKEN_OP ''='')
       then rbind (parse_init ty (snd (match2 p1 TOKEN_OP ''=''))) (\<lambda>(initNode, p2).
              Ok (kids1 @ [Some initNode], p2))
       else Ok (kids1, p1))"

lemma declarator_step:
  assumes "declarator m ty p kids = Ok (kids', p1)"
  shows "tokens p1 = tokens p \<and> current p < current p1 \<and> current p < length (tokens p)"
proof -
  from assms obtain q where c: "consume1 p TOKEN_ID m = Ok q"
    by (auto simp: declarator_def rbind_Ok)
  note s = consume1_step [OF c]
  show ?thesis
  proof (cases "fst (match2 q TOKEN_OP ''='')")
    case False
    with assms c s show ?thesis by (auto simp: declarator_def Let_def)
  next
    case True
    with assms c obtain e where
      i: "parse_init ty (snd (match2 q TOKEN_OP ''='')) = Ok (e, p1)"
      by (auto simp: declarator_def Let_def rbind_Ok)
    from parse_init_mono [OF i] match2_mono [of q TOKEN_OP "''=''"] s
    show ?thesis by simp
  qed
qed

text \<open>The do-while loop of \<open>parseDecl\<close> (the declaration of a for initializer).\<close>

function decl_vars :: "string \<Rightarrow> Parser \<Rightarrow> TreeNode option list \<Rightarrow> (TreeNode option list \<times> Parser) result" where
  "decl_vars ty p kids =
     rbind (declarator ''Expected variable name'' ty p kids) (\<lambda>(kids', p1).
       if fst (match2 p1 TOKEN_SEP '','')
       then decl_vars ty (snd (match2 p1 TOKEN_SEP '','')) kids'
       else Ok (kids', p1))"
  by pat_completeness auto
termination
proof (relation "measure (\<lambda>(ty, p, kids). length (tokens p) - current p)", goal_cases)
  case 1
  show ?case by simp
next
  case (2 ty p kids x kids' p1)
  then have d: "declarator ''Expected variable name'' ty p kids = Ok (kids', p1)" by simp
  from declarator_step [OF d] match2_mono [of p1 TOKEN_SEP "'',''"]
  show ?case by auto
qed

declare decl_vars.simps [simp del]

definition parseDecl :: "Parser \<Rightarrow> (TreeNode \<times> Parser) result" where
  "parseDecl p =
     rbind (if fst (match2 p TOKEN_KEYWORD ''int'') then Ok (''int'', snd (match2 p TOKEN_KEYWORD ''int''))
            else if fst (match2 p TOKEN_KEYWORD ''float'') then Ok (''float'', snd (match2 p TOKEN_KEYWORD ''float''))
            else if fst (match2 p TOKEN_KEYWORD ''bool'') then Ok (''bool'', snd (match2 p TOKEN_KEYWORD ''bool''))
            else error p ''Expected type keyword in declaration'') (\<lambda>(ty, p1).
     rbind (decl_vars ty p1 [Some (TreeNode NODE_TYPE ty [])]) (\<lambda>(kids, p2).
     rbind (consume2 p2 TOKEN_SEP '';'' ''Expected ';' after declaration'') (\<lambda>p3.
       Ok (TreeNode NODE_LIST [] kids, p3))))"

text \<open>
  The do-while loop of \<open>parseDecls\<close>: a semicolon at the head of an iteration leaves the
  loop (an empty declaration is allowed).
\<close>

function decls_vars :: "string \<Rightarrow> Parser \<Rightarrow> TreeNode option list \<Rightarrow> (TreeNode option list \<times> Parser) result" where
  "decls_vars ty p kids =
     (if fst (match2 p TOKEN_SEP '';'') then Ok (kids, snd (match2 p TOKEN_SEP '';''))
      else
        rbind (declarator ''Expected variable name in declaration'' ty p kids) (\<lambda>(kids', p1).
          if fst (match2 p1 TOKEN_SEP '','')
          then decls_vars ty (snd (match2 p1 TOKEN_SEP '','')) kids'
          else Ok (kids', p1)))"
  by pat_completeness auto
termination
proof (relation "measure (\<lambda>(ty, p, kids). length (tokens p) - current p)", goal_cases)
  case 1
  show ?case by simp
next
  case (2 ty p kids x kids' p1)
  then have d: "declarator ''Expected variable name in declaration'' ty p kids = Ok (kids', p1)"
    by simp
  from declarator_step [OF d] match2_mono [of p1 TOKEN_SEP "'',''"]
  show ?case by auto
qed

declare decls_vars.simps [simp del]

lemma decls_vars_mono:
  "decls_vars ty p kids = Ok (kids', r) \<Longrightarrow> tokens r = tokens p \<and> current p \<le> current r"
proof (induction ty p kids rule: decls_vars.induct)
  case (1 ty p kids)
  show ?case
  proof (cases "fst (match2 p TOKEN_SEP '';'')")
    case True
    with "1.prems" match2_mono [of p TOKEN_SEP "'';''"] show ?thesis
      by (auto simp: decls_vars.simps [of ty p])
  next
    case False
    with "1.prems" obtain k1 r1 where
      d: "declarator ''Expected variable name in declaration'' ty p kids = Ok (k1, r1)"
      by (auto simp: decls_vars.simps [of ty p] rbind_Ok)
    note ds = declarator_step [OF d]
    show ?thesis
    proof (cases "fst (match2 r1 TOKEN_SEP '','')")
      case True
      with "1.prems" False d have
        "decls_vars ty (snd (match2 r1 TOKEN_SEP '','')) k1 = Ok (kids', r)"
        by (simp add: decls_vars.simps [of ty p])
      from "1.IH" [OF False d refl True this] match2_mono [of r1 TOKEN_SEP "'',''"] ds
      show ?thesis by simp
    next
      case F2: False
      with "1.prems" False d ds show ?thesis by (auto simp: decls_vars.simps [of ty p])
    qed
  qed
qed

definition is_type_keyword :: "Parser \<Rightarrow> bool" where
  "is_type_keyword p \<longleftrightarrow>
     check2 p TOKEN_KEYWORD ''int'' \<or> check2 p TOKEN_KEYWORD ''float'' \<or> check2 p TOKEN_KEYWORD ''bool''"

text \<open>
  The type keyword at the head of a declaration group; the type string stays empty when
  none of the three keywords matches.
\<close>

definition match_type :: "Parser \<Rightarrow> string \<times> Parser" where
  "match_type p =
     (if fst (match2 p TOKEN_KEYWORD ''int'') then (''int'', snd (match2 p TOKEN_KEYWORD ''int''))
      else if fst (match2 p TOKEN_KEYWORD ''float'') then (''float'', snd (match2 p TOKEN_KEYWORD ''float''))
      else if fst (match2 p TOKEN_KEYWORD ''bool'') then (''bool'', snd (match2 p TOKEN_KEYWORD ''bool''))
      else ([], p))"

text \<open>One declaration group: type keyword, declarators, closing semicolon.\<close>

definition decl_group :: "Parser \<Rightarrow> (TreeNode \<times> Parser) result" where
  "decl_group p =
     (case match_type p of (ty, p1) \<Rightarrow>
        rbind (decls_vars ty p1 [Some (TreeNode NODE_TYPE ty [])]) (\<lambda>(kids, p2).
        rbind (consume2 p2 TOKEN_SEP '';'' ''Expected ';' after declaration'') (\<lambda>p3.
          Ok (TreeNode NODE_LIST [] kids, p3))))"

lemma decl_group_step:
  assumes "decl_group p = Ok (d, p1)"
  shows "tokens p1 = tokens p \<and> current p < current p1 \<and> current p < length (tokens p)"
proof -
  obtain ty q where mt: "match_type p = (ty, q)" by (cases "match_type p")
  then have q: "tokens q = tokens p \<and> current p \<le> current q"
    using match2_mono [of p TOKEN_KEYWORD]
    by (auto simp: match_type_def split: if_splits)
  from assms mt obtain kids q2 where
    dv: "decls_vars ty q [Some (TreeNode NODE_TYPE ty [])] = Ok (kids, q2)" and
    c: "consume2 q2 TOKEN_SEP '';'' ''Expected ';' after declaration'' = Ok p1"
    by (auto simp: decl_group_def rbind_Ok)
  from decls_vars_mono [OF dv] consume2_step [OF c] q show ?thesis by simp
qed

function decls_loop :: "Parser \<Rightarrow> TreeNode option list \<Rightarrow> (TreeNode \<times> Parser) result" where
  "decls_loop p groups =
     (if \<not> isAtEnd p \<and> is_type_keyword p
      then rbind (decl_group p) (\<lambda>(declNode, p1). decls_loop p1 (groups @ [Some declNode]))
      else Ok (TreeNode NODE_DECLS [] groups, p))"
  by pat_completeness auto
termination
proof (relation "measure (\<lambda>(p, groups). length (tokens p) - current p)", goal_cases)
  case 1
  show ?case by simp
next
  case (2 p groups x declNode p1)
  then have "decl_group p = Ok (declNode, p1)" by simp
  from decl_group_step [OF this] show ?case by auto
qed

declare decls_loop.simps [simp del]

definition parseDecls :: "Parser \<Rightarrow> (TreeNode \<times> Parser) result" where
  "parseDecls p = decls_loop p []"

subsection \<open>Simple statements\<close>

definition parseAssignStmt :: "Parser \<Rightarrow> bool \<Rightarrow> (TreeNode \<times> Parser) result" where
  "parseAssignStmt p inForLoop =
     rbind (consume1 p TOKEN_ID ''Expected identifier in assignment'') (\<lambda>p1.
       let idNode = TreeNode NODE_ID (tok_value (previous p1)) [];
           op = tok_value (peek p1)
       in
       if op = ''++'' \<or> op = ''--'' then
         rbind (consume1 p1 TOKEN_OP ''Expected operator'') (\<lambda>p2.
           let assignNode = TreeNode NODE_ASSIGN op [Some idNode] in
           if \<not> inForLoop
           then rbind (consume2 p2 TOKEN_SEP '';'' ''Expected ';' after assignment'') (\<lambda>p3.
                  Ok (assignNode, p3))
           else Ok (assignNode, p2))
       else
         rbind (consume1 p1 TOKEN_OP ''Expected assignment operator'') (\<lambda>p2.
         rbind (if op = ''='' then
                  (if check1 p2 TOKEN_BOOL \<or> check2 p2 TOKEN_OP ''!'' \<or>
                      check1 p2 TOKEN_ID \<or> check2 p2 TOKEN_SEP ''(''
                   then parseBoolExpr p2
                   else parseArithmeticExpr p2)
                else parseArithmeticExpr p2) (\<lambda>(rhs, p3).
           let assignNode = TreeNode NODE_ASSIGN op [Some idNode, Some rhs] in
           if \<not> inForLoop
           then rbind (consume2 p3 TOKEN_SEP '';'' ''Expected ';' after assignment'') (\<lambda>p4.
                  Ok (assignNode, p4))
           else Ok (assignNode, p3))))"

text \<open>The do-while loop over a comma-separated identifier list (read and write).\<close>

function ident_list :: "string \<Rightarrow> Parser \<Rightarrow> TreeNode option list \<Rightarrow> (TreeNode option list \<times> Parser) result" where
  "ident_list message p kids =
     rbind (consume1 p TOKEN_ID message) (\<lambda>p1.
       if fst (match2 p1 TOKEN_SEP '','')
       then ident_list message (snd (match2 p1 TOKEN_SEP '',''))
              (kids @ [Some (TreeNode NODE_ID (tok_value (previous p1)) [])])
       else Ok (kids @ [Some (TreeNode NODE_ID (tok_value (previous p1)) [])], p1))"
  by pat_completeness auto
termination
proof (relation "measure (\<lambda>(m, p, kids). length (tokens p) - current p)", goal_cases)
  case 1
  show ?case by simp
next
  case (2 message p kids p1)
  from consume1_step [OF 2(1)] match2_mono [of p1 TOKEN_SEP "'',''"]
  show ?case by auto
qed

declare ident_list.simps [simp del]

definition parseReadStmt :: "Parser \<Rightarrow> (TreeNode \<times> Parser) result" where
  "parseReadStmt p =
     rbind (consume2 p TOKEN_KEYWORD ''read'' (''Expected 'read'' @ [CHR 0x27])) (\<lambda>p1.
     rbind (consume2 p1 TOKEN_SEP ''('' (''Expected '(' after 'read'' @ [CHR 0x27])) (\<lambda>p2.
     rbind (ident_list ''Expected variable name in read statement'' p2 []) (\<lambda>(kids, p3).
     rbind (consume2 p3 TOKEN_SEP '')'' ''Expected ')' after read arguments'') (\<lambda>p4.
     rbind (consume2 p4 TOKEN_SEP '';'' ''Expected ';' after read statement'') (\<lambda>p5.
       Ok (TreeNode NODE_READ [] kids, p5))))))"

definition parseWriteStmt :: "Parser \<Rightarrow> (TreeNode \<times> Parser) result" where
  "parseWriteStmt p =
     rbind (consume2 p TOKEN_KEYWORD ''write'' (''Expected 'write'' @ [CHR 0x27])) (\<lambda>p1.
     rbind (if fst (match2 p1 TOKEN_SEP ''('')
            then rbind (ident_list ''Expected variable name in write statement''
                          (snd (match2 p1 TOKEN_SEP ''('')) []) (\<lambda>(kids, p2).
                 rbind (consume2 p2 TOKEN_SEP '')'' ''Expected ')' after write arguments'') (\<lambda>p3.
                   Ok (kids, p3)))
            else rbind (consume1 p1 TOKEN_ID ''Expected variable name in write statement'') (\<lambda>p2.
                   Ok ([Some (TreeNode NODE_ID (tok_value (previous p2)) [])], p2))) (\<lambda>(kids, p4).
     rbind (consume2 p4 TOKEN_SEP '';'' ''Expected ';' after write statement'') (\<lambda>p5.
       Ok (TreeNode NODE_WRITE [] kids, p5))))"

subsection \<open>Compound statements\<close>

text \<open>
  The parts of the if, while and for routines that come before their bodies call no
  statement routine; they are defined first.
\<close>

definition if_header :: "Parser \<Rightarrow> (TreeNode \<times> Parser) result" where
  "if_header p =
     rbind (consume2 p TOKEN_KEYWORD ''if'' (''Expected 'if'' @ [CHR 0x27])) (\<lambda>p1.
     rbind (consume2 p1 TOKEN_SEP ''('' (''Expected '(' after 'if'' @ [CHR 0x27])) (\<lambda>p2.
     rbind (parseBoolExpr p2) (\<lambda>(cond, p3).
     rbind (consume2 p3 TOKEN_SEP '')'' ''Expected ')' after condition'') (\<lambda>p4.
     rbind (consume2 p4 TOKEN_SEP ''{'' ''Expected '{' to start if block'') (\<lambda>p5.
       Ok (cond, p5))))))"

definition while_header :: "Parser \<Rightarrow> (TreeNode \<times> Parser) result" where
  "while_header p =
     rbind (consume2 p TOKEN_KEYWORD ''while'' (''Expected 'while'' @ [CHR 0x27])) (\<lambda>p1.
     rbind (consume2 p1 TOKEN_SEP ''('' (''Expected '(' after 'while'' @ [CHR 0x27])) (\<lambda>p2.
     rbind (parseBoolExpr p2) (\<lambda>(cond, p3).
     rbind (consume2 p3 TOKEN_SEP '')'' ''Expected ')' after condition'') (\<lambda>p4.
       Ok (cond, p4)))))"

definition for_init :: "Parser \<Rightarrow> (TreeNode option \<times> Parser) result" where
  "for_init p =
     (if \<not> check2 p TOKEN_SEP '';'' then
        (if is_type_keyword p
         then rbind (parseDecl p) (\<lambda>(decl, p1). Ok (Some decl, p1))
         else rbind (parseAssignStmt p False) (\<lambda>(assign, p1).
              rbind (consume2 p1 TOKEN_SEP '';'' ''Expected ';' after for initializer'') (\<lambda>p2.
                Ok (Some assign, p2))))
      else rbind (consume2 p TOKEN_SEP '';'' ''Expected ';' after for initializer'') (\<lambda>p1.
             Ok (None, p1)))"

definition for_cond :: "Parser \<Rightarrow> (TreeNode option \<times> Parser) result" where
  "for_cond p =
     rbind (if \<not> check2 p TOKEN_SEP '';''
            then rbind (parseBoolExpr p) (\<lambda>(cond, p1). Ok (Some cond, p1))
            else Ok (None, p)) (\<lambda>(cond, p1).
     rbind (consume2 p1 TOKEN_SEP '';'' ''Expected ';' after for condition'') (\<lambda>p2.
       Ok (cond, p2)))"

definition for_update :: "Parser \<Rightarrow> (TreeNode option \<times> Parser) result" where
  "for_update p =
     rbind (if \<not> check2 p TOKEN_SEP '')''
            then rbind (parseAssignStmt p True) (\<lambda>(updateNode, p1). Ok (Some updateNode, p1))
            else Ok (None, p)) (\<lambda>(updateNode, p1).
     rbind (consume2 p1 TOKEN_SEP '')'' ''Expected ')' after for update'') (\<lambda>p2.
       Ok (updateNode, p2)))"

definition for_header :: "Parser \<Rightarrow> (TreeNode option list \<times> Parser) result" where
  "for_header p =
     rbind (consume2 p TOKEN_KEYWORD ''for'' (''Expected 'for'' @ [CHR 0x27])) (\<lambda>p1.
     rbind (consume2 p1 TOKEN_SEP ''('' (''Expected '(' after 'for'' @ [CHR 0x27])) (\<lambda>p2.
     rbind (for_init p2) (\<lambda>(init, p3).
     rbind (for_cond p3) (\<lambda>(cond, p4).
     rbind (for_update p4) (\<lambda>(updateNode, p5).
       Ok ([init, cond, updateNode], p5))))))"

text \<open>
  The statement routines call each other; the first argument bounds the number of nested
  and successive calls, and \<open>Timeout\<close> is the answer when it is used up.  A statement
  routine that returns always returns a node (never a null pointer).
\<close>

fun parseStmt :: "nat \<Rightarrow> Parser \<Rightarrow> (TreeNode \<times> Parser) result"
  and parseBlock :: "nat \<Rightarrow> Parser \<Rightarrow> (TreeNode \<times> Parser) result"
  and block_loop :: "nat \<Rightarrow> Parser \<Rightarrow> TreeNode option list \<Rightarrow> (TreeNode option list \<times> Parser) result"
  and parseIfStmt :: "nat \<Rightarrow> Parser \<Rightarrow> (TreeNode \<times> Parser) result"
  and if_branches :: "nat \<Rightarrow> TreeNode \<Rightarrow> Parser \<Rightarrow> (TreeNode \<times> Parser) result"
  and parseWhileStmt :: "nat \<Rightarrow> Parser \<Rightarrow> (TreeNode \<times> Parser) result"
  and parseForStmt :: "nat \<Rightarrow> Parser \<Rightarrow> (TreeNode \<times> Parser) result"
where
  "parseStmt 0 p = Timeout"
| "parseStmt (Suc n) p =
     (if check2 p TOKEN_SEP ''{'' then parseBlock n p
      else if check2 p TOKEN_KEYWORD ''if'' then parseIfStmt n p
      else if check2 p TOKEN_KEYWORD ''while'' then parseWhileStmt n p
      else if check2 p TOKEN_KEYWORD ''for'' then parseForStmt n p
      else if check2 p TOKEN_KEYWORD ''read'' then parseReadStmt p
      else if check2 p TOKEN_KEYWORD ''write'' then parseWriteStmt p
      else if check1 p TOKEN_ID then parseAssignStmt p False
      else if fst (match2 p TOKEN_SEP '';'')
      then Ok (TreeNode NODE_STMTS ''empty_stmt'' [], snd (match2 p TOKEN_SEP '';''))
      else error p (''Expected statement but found: '' @ tok_value (peek p)))"
| "parseBlock 0 p = Timeout"
| "parseBlock (Suc n) p =
     rbind (consume2 p TOKEN_SEP ''{'' ''Expected '{' to start block'') (\<lambda>p1.
     rbind (block_loop n p1 []) (\<lambda>(kids, p2).
     rbind (consume2 p2 TOKEN_SEP ''}'' ''Expected '}' to end block'') (\<lambda>p3.
       Ok (TreeNode NODE_BLOCK [] kids, p3))))"
| "block_loop 0 p kids = Timeout"
| "block_loop (Suc n) p kids =
     (if \<not> isAtEnd p \<and> \<not> check2 p TOKEN_SEP ''}''
      then rbind (parseStmt n p) (\<lambda>(stmt, p1). block_loop n p1 (kids @ [Some stmt]))
      else Ok (kids, p))"
| "parseIfStmt 0 p = Timeout"
| "parseIfStmt (Suc n) p = rbind (if_header p) (\<lambda>(cond, p1). if_branches n cond p1)"
| "if_branches 0 cond p = Timeout"
| "if_branches (Suc n) cond p =
     rbind (if fst (match2 p TOKEN_SEP ''{'')
            then parseBlock n (snd (match2 p TOKEN_SEP ''{''))
            else rbind (parseStmt n p) (\<lambda>(thenBranch, p1).
                   Ok (thenBranch, if check2 p1 TOKEN_SEP '';'' then snd (advance p1) else p1)))
       (\<lambda>(thenBranch, p2).
          if fst (match2 p2 TOKEN_KEYWORD ''else'')
          then rbind (consume2 (snd (match2 p2 TOKEN_KEYWORD ''else'')) TOKEN_SEP ''{''
                        ''Expected '{' to start else block'') (\<lambda>p3.
               rbind (parseBlock n p3) (\<lambda>(elseBranch, p4).
                 Ok (TreeNode NODE_IF [] [Some cond, Some thenBranch, Some elseBranch], p4)))
          else Ok (TreeNode NODE_IF [] [Some cond, Some thenBranch], p2))"
| "parseWhileStmt 0 p = Timeout"
| "parseWhileStmt (Suc n) p =
     rbind (while_header p) (\<lambda>(cond, p1).
     rbind (if check2 p1 TOKEN_SEP ''{'' then parseBlock n p1 else parseStmt n p1) (\<lambda>(body, p2).
       Ok (TreeNode NODE_WHILE [] [Some cond, Some body], p2)))"
| "parseForStmt 0 p = Timeout"
| "parseForStmt (Suc n) p =
     rbind (for_header p) (\<lambda>(clauses, p1).
     rbind (if check2 p1 TOKEN_SEP ''{'' then parseBlock n p1
            else rbind (parseStmt n p1) (\<lambda>(stmt, p2).
                   Ok (TreeNode NODE_BLOCK [] [Some stmt], p2))) (\<lambda>(body, p3).
       Ok (TreeNode NODE_FOR [] (clauses @ [Some body]), p3)))"

subsection \<open>Program\<close>

fun stmts_loop :: "nat \<Rightarrow> Parser \<Rightarrow> TreeNode option list \<Rightarrow> (TreeNode \<times> Parser) result" where
  "stmts_loop 0 p kids = Timeout"
| "stmts_loop (Suc n) p kids =
     (if \<not> isAtEnd p \<and> \<not> check2 p TOKEN_SEP ''}''
      then rbind (parseStmt n p) (\<lambda>(stmt, p1). stmts_loop n p1 (kids @ [Some stmt]))
      else Ok (TreeNode NODE_STMTS [] kids, p))"

definition parseStmts :: "nat \<Rightarrow> Parser \<Rightarrow> (TreeNode \<times> Parser) result" where
  "parseStmts n p = stmts_loop n p []"

definition parse :: "nat \<Rightarrow> Token list \<Rightarrow> TreeNode result" where
  "parse n ts =
     rbind (parseDecls \<lparr>tokens = ts, current = 0\<rparr>) (\<lambda>(declsNode, p1).
     rbind (parseStmts n p1) (\<lambda>(stmtsNode, p2).
       Ok (TreeNode NODE_BLOCK [] [Some declsNode, Some stmtsNode])))"

text \<open>The number of tokens not yet consumed.\<close>

definition remaining :: "Parser \<Rightarrow> nat" where
  "remaining p = length (tokens p) - current p"

section \<open>Lexer\<close>

text \<open>
  The lexer has its own token kinds (the parser's kinds and a kind for bitwise operators;
  \<open>TOKEN_x\<close> of the lexer is written \<open>LEX_x\<close>) and a token with a line and a column.
\<close>

datatype LexTokenType =
  LEX_ID | LEX_NUM | LEX_FLOAT | LEX_BOOL | LEX_KEYWORD | LEX_OP | LEX_SEP | LEX_BIT_OP | LEX_ERROR

record LexToken =
  lex_type :: LexTokenType
  lex_value :: string
  lex_line :: int
  lex_column :: int

record Lexer =
  source :: string
  pos :: nat
  line :: int
  column :: int

definition Lexer :: "string \<Rightarrow> Lexer" where
  "Lexer src = \<lparr>source = src, pos = 0, line = 1, column = 1\<rparr>"

subsection \<open>Symbol tables\<close>

text \<open>The table \<open>keyword_table\<close> is the lexer's keyword map.\<close>

definition keyword_table :: "(string \<times> LexTokenType) list" where
  "keyword_table =
     [(''int'', LEX_KEYWORD), (''float'', LEX_KEYWORD), (''bool'', LEX_KEYWORD),
      (''if'', LEX_KEYWORD), (''else'', LEX_KEYWORD), (''while'', LEX_KEYWORD),
      (''for'', LEX_KEYWORD), (''read'', LEX_KEYWORD), (''write'', LEX_KEYWORD),
      (''true'', LEX_BOOL), (''false'', LEX_BOOL)]"

definition operators :: "(string \<times> LexTokenType) list" where
  "operators =
     [(''+'', LEX_OP), (''-'', LEX_OP), (''*'', LEX_OP), (''/'', LEX_OP), (''='', LEX_OP),
      (''&'', LEX_OP), (''|'', LEX_OP), (''+='', LEX_OP), (''-='', LEX_OP), (''*='', LEX_OP),
      (''/='', LEX_OP), (''=='', LEX_OP), (''!='', LEX_OP), (''<'', LEX_OP), (''<='', LEX_OP),
      (''>'', LEX_OP), (''>='', LEX_OP), (''&&'', LEX_OP), (''||'', LEX_OP), (''!'', LEX_OP),
      (''++'', LEX_OP), (''--'', LEX_OP)]"

definition separators :: "(string \<times> LexTokenType) list" where
  "separators =
     [('';'', LEX_SEP), ('','', LEX_SEP), (''('', LEX_SEP), ('')'', LEX_SEP), (''{'', LEX_SEP),
      (''}'', LEX_SEP), (''[]'', LEX_SEP), ('']'', LEX_SEP), ('':'', LEX_SEP)]"

definition bit_operators :: "(string \<times> LexTokenType) list" where
  "bit_operators =
     [(''&'', LEX_BIT_OP), (''|'', LEX_BIT_OP), (''~'', LEX_BIT_OP), (''^'', LEX_BIT_OP),
      (''<<'', LEX_BIT_OP), (''>>'', LEX_BIT_OP)]"

text \<open>\<open>count\<close> of a hash map: whether the key is present.\<close>

definition table_count :: "(string \<times> LexTokenType) list \<Rightarrow> string \<Rightarrow> bool" where
  "table_count t k \<longleftrightarrow> map_of t k \<noteq> None"

subsection \<open>Characters\<close>

text \<open>The character classes of the C locale; a byte above 127 is in none of them.\<close>

definition NUL :: char where
  "NUL = CHR 0x00"

definition newline :: char where
  "newline = CHR 0x0A"

definition isspace :: "char \<Rightarrow> bool" where
  "isspace c \<longleftrightarrow> (let n = (of_char c :: nat) in n = 32 \<or> (9 \<le> n \<and> n \<le> 13))"

definition isdigit :: "char \<Rightarrow> bool" where
  "isdigit c \<longleftrightarrow> (let n = (of_char c :: nat) in 48 \<le> n \<and> n \<le> 57)"

definition isalpha :: "char \<Rightarrow> bool" where
  "isalpha c \<longleftrightarrow> (let n = (of_char c :: nat) in (65 \<le> n \<and> n \<le> 90) \<or> (97 \<le> n \<and> n \<le> 122))"

definition isalnum :: "char \<Rightarrow> bool" where
  "isalnum c \<longleftrightarrow> isalpha c \<or> isdigit c"

text \<open>Decimal rendering of an integer (\<open>to_string\<close>).\<close>

fun digits :: "nat \<Rightarrow> string" where
  "digits n =
     (if n < 10 then [''0123456789'' ! n]
      else digits (n div 10) @ [''0123456789'' ! (n mod 10)])"

declare digits.simps [simp del]

definition to_string :: "int \<Rightarrow> string" where
  "to_string i = (if i < 0 then CHR ''-'' # digits (nat (- i)) else digits (nat i))"

subsection \<open>Cursor\<close>

definition Lexer_peek :: "Lexer \<Rightarrow> char" where
  "Lexer_peek s = (if pos s < length (source s) then source s ! pos s else NUL)"

text \<open>
  \<open>source[pos + 1]\<close>: the character after the current one; the string's terminator
  when \<open>pos + 1\<close> is the length.
\<close>

definition peek_next :: "Lexer \<Rightarrow> char" where
  "peek_next s = (if pos s + 1 < length (source s) then source s ! (pos s + 1) else NUL)"

definition Lexer_advance :: "Lexer \<Rightarrow> char \<times> Lexer" where
  "Lexer_advance s =
     (let c = (if pos s < length (source s) then source s ! pos s else NUL);
          s1 = (if pos s < length (source s) then s\<lparr>pos := pos s + 1\<rparr> else s)
      in if c = newline then (c, s1\<lparr>line := line s1 + 1, column := 1\<rparr>)
         else (c, s1\<lparr>column := column s1 + 1\<rparr>))"

lemma Lexer_advance_source: "source (snd (Lexer_advance s)) = source s"
  by (simp add: Lexer_advance_def Let_def)

lemma Lexer_advance_pos:
  "pos (snd (Lexer_advance s)) = (if pos s < length (source s) then Suc (pos s) else pos s)"
  by (simp add: Lexer_advance_def Let_def)

lemma Lexer_peek_in_range: "Lexer_peek s \<noteq> NUL \<Longrightarrow> pos s < length (source s)"
  by (simp add: Lexer_peek_def split: if_splits)

subsection \<open>Whitespace and comments\<close>

function skip_line :: "Lexer \<Rightarrow> Lexer" where
  "skip_line s =
     (if Lexer_peek s \<noteq> newline \<and> Lexer_peek s \<noteq> NUL then skip_line (snd (Lexer_advance s))
      else s)"
  by pat_completeness auto
termination
  by (relation "measure (\<lambda>s. length (source s) - pos s)")
     (auto simp: Lexer_advance_source Lexer_advance_pos dest: Lexer_peek_in_range)

declare skip_line.simps [simp del]

text \<open>
  The loop inside a block comment; the flag tells whether the end of input was met
  before the closing \<open>*/\<close> (then \<open>skipWhitespace\<close> returns at once).
\<close>

function skip_block :: "Lexer \<Rightarrow> Lexer \<times> bool" where
  "skip_block s =
     (if \<not> (Lexer_peek s = CHR ''*'' \<and> peek_next s = CHR ''/'') then
        (if Lexer_peek s = NUL then (s, True) else skip_block (snd (Lexer_advance s)))
      else (s, False))"
  by pat_completeness auto
termination
  by (relation "measure (\<lambda>s. length (source s) - pos s)")
     (auto simp: Lexer_advance_source Lexer_advance_pos dest: Lexer_peek_in_range)

declare skip_block.simps [simp del]

lemma skip_line_mono: "source (skip_line s) = source s \<and> pos s \<le> pos (skip_line s)"
proof (induction s rule: skip_line.induct)
  case (1 s)
  show ?case
  proof (cases "Lexer_peek s \<noteq> newline \<and> Lexer_peek s \<noteq> NUL")
    case True
    from 1 [OF True] True show ?thesis
      by (simp add: skip_line.simps [of s] Lexer_advance_source Lexer_advance_pos split: if_splits)
  next
    case False
    then show ?thesis by (auto simp: skip_line.simps [of s])
  qed
qed

lemma skip_block_mono: "source (fst (skip_block s)) = source s \<and> pos s \<le> pos (fst (skip_block s))"
proof (induction s rule: skip_block.induct)
  case (1 s)
  show ?case
  proof (cases "\<not> (Lexer_peek s = CHR ''*'' \<and> peek_next s = CHR ''/'') \<and> Lexer_peek s \<noteq> NUL")
    case True
    then have a: "\<not> (Lexer_peek s = CHR ''*'' \<and> peek_next s = CHR ''/'')" and b: "Lexer_peek s \<noteq> NUL"
      by simp_all
    from 1 [OF a b] a b show ?thesis
      by (simp add: skip_block.simps [of s] Lexer_advance_source Lexer_advance_pos split: if_splits)
  next
    case False
    then show ?thesis by (auto simp: skip_block.simps [of s])
  qed
qed

definition line_comment_start :: "Lexer \<Rightarrow> bool" where
  "line_comment_start s \<longleftrightarrow>
     Lexer_peek s = CHR ''#'' \<or> (Lexer_peek s = CHR ''/'' \<and> peek_next s = CHR ''/'')"

definition block_comment_start :: "Lexer \<Rightarrow> bool" where
  "block_comment_start s \<longleftrightarrow> Lexer_peek s = CHR ''/'' \<and> peek_next s = CHR ''*''"

lemma skip_line_progress:
  assumes "line_comment_start s"
  shows "pos s < pos (skip_line s)"
proof -
  from assms have p: "Lexer_peek s \<noteq> newline \<and> Lexer_peek s \<noteq> NUL"
    by (auto simp: line_comment_start_def newline_def NUL_def)
  then have "pos s < length (source s)" by (simp add: Lexer_peek_in_range)
  with p skip_line_mono [of "snd (Lexer_advance s)"] show ?thesis
    by (simp add: skip_line.simps [of s] Lexer_advance_pos)
qed

function skipWhitespace :: "Lexer \<Rightarrow> Lexer" where
  "skipWhitespace s =
     (if line_comment_start s then skipWhitespace (skip_line s)
      else if block_comment_start s then
        (case skip_block (snd (Lexer_advance (snd (Lexer_advance s)))) of
           (s1, True) \<Rightarrow> s1
         | (s1, False) \<Rightarrow> skipWhitespace (snd (Lexer_advance (snd (Lexer_advance s1)))))
      else if isspace (Lexer_peek s) then skipWhitespace (snd (Lexer_advance s))
      else s)"
  by pat_completeness auto
termination
proof (relation "measure (\<lambda>s. length (source s) - pos s)", goal_cases)
  case 1
  show ?case by simp
next
  case (2 s)
  from skip_line_progress [OF 2] skip_line_mono [of s]
  have "pos s < pos (skip_line s)" "source (skip_line s) = source s" by simp_all
  moreover from 2 have "pos s < length (source s)"
    by (auto simp: line_comment_start_def NUL_def intro!: Lexer_peek_in_range)
  ultimately show ?case by auto
next
  case (3 s s1 b)
  then have st: "block_comment_start s" by simp
  from 3(3) have sb: "fst (skip_block (snd (Lexer_advance (snd (Lexer_advance s))))) = s1"
    by (metis fst_conv)
  from st have r: "pos s < length (source s)"
    by (auto simp: block_comment_start_def NUL_def intro!: Lexer_peek_in_range)
  from skip_block_mono [of "snd (Lexer_advance (snd (Lexer_advance s)))"] sb r
  have "source s1 = source s" "pos s < pos s1"
    by (auto simp: Lexer_advance_source Lexer_advance_pos split: if_splits)
  then show ?case using r
    by (auto simp: Lexer_advance_source Lexer_advance_pos)
next
  case (4 s)
  then have "Lexer_peek s \<noteq> NUL" by (auto simp: isspace_def NUL_def)
  then have "pos s < length (source s)" by (rule Lexer_peek_in_range)
  then show ?case by (simp add: Lexer_advance_source Lexer_advance_pos)
qed

declare skipWhitespace.simps [simp del]

subsection \<open>Tokens\<close>

definition makeToken :: "Lexer \<Rightarrow> LexTokenType \<Rightarrow> string \<Rightarrow> LexToken" where
  "makeToken s ty v =
     \<lparr>lex_type = ty, lex_value = v, lex_line = line s, lex_column = column s - int (length v)\<rparr>"

definition makeError :: "Lexer \<Rightarrow> string \<Rightarrow> LexToken" where
  "makeError s msg =
     \<lparr>lex_type = LEX_ERROR,
      lex_value = msg @ '' at line '' @ to_string (line s) @ '':'' @ to_string (column s),
      lex_line = line s, lex_column = column s\<rparr>"

text \<open>The diagnostics of the lexer, as the bytes of their UTF-8 text.\<close>

definition msg_illegal_identifier :: string where
  "msg_illegal_identifier =
     [CHR 0xE9, CHR 0x9D, CHR 0x9E, CHR 0xE6, CHR 0xB3, CHR 0x95, CHR 0xE6, CHR 0xA0, CHR 0x87,
      CHR 0xE8, CHR 0xAF, CHR 0x86, CHR 0xE7, CHR 0xAC, CHR 0xA6, CHR 0xEF, CHR 0xBC, CHR 0x88,
      CHR 0xE4, CHR 0xB8, CHR 0x8D, CHR 0xE8, CHR 0x83, CHR 0xBD, CHR 0xE4, CHR 0xBB, CHR 0xA5,
      CHR 0xE6, CHR 0x95, CHR 0xB0, CHR 0xE5, CHR 0xAD, CHR 0x97, CHR 0xE5, CHR 0xBC, CHR 0x80,
      CHR 0xE5, CHR 0xA4, CHR 0xB4, CHR 0xEF, CHR 0xBC, CHR 0x89, CHR '':'', CHR '' '']"

definition msg_illegal_number :: string where
  "msg_illegal_number =
     [CHR 0xE9, CHR 0x9D, CHR 0x9E, CHR 0xE6, CHR 0xB3, CHR 0x95, CHR 0xE6, CHR 0x95, CHR 0xB0,
      CHR 0xE5, CHR 0xAD, CHR 0x97, CHR 0xE6, CHR 0xA0, CHR 0xBC, CHR 0xE5, CHR 0xBC, CHR 0x8F,
      CHR '':'', CHR '' '']"

definition msg_unrecognized_symbol :: string where
  "msg_unrecognized_symbol =
     [CHR 0xE6, CHR 0x97, CHR 0xA0, CHR 0xE6, CHR 0xB3, CHR 0x95, CHR 0xE8, CHR 0xAF, CHR 0x86,
      CHR 0xE5, CHR 0x88, CHR 0xAB, CHR 0xE7, CHR 0x9A, CHR 0x84, CHR 0xE7, CHR 0xAC, CHR 0xA6,
      CHR 0xE5, CHR 0x8F, CHR 0xB7, CHR '':'', CHR '' '']"

definition msg_illegal_character :: string where
  "msg_illegal_character =
     [CHR 0xE9, CHR 0x9D, CHR 0x9E, CHR 0xE6, CHR 0xB3, CHR 0x95, CHR 0xE5, CHR 0xAD, CHR 0x97,
      CHR 0xE7, CHR 0xAC, CHR 0xA6, CHR '':'', CHR '' '']"

text \<open>
  The loops of the form \<open>while (C(peek())) value += advance();\<close>, for the three
  conditions \<open>C\<close> that occur.
\<close>

datatype char_class = Digit | DigitOrAlpha | AlnumOrUnderscore

fun in_class :: "char_class \<Rightarrow> char \<Rightarrow> bool" where
  "in_class Digit c = isdigit c"
| "in_class DigitOrAlpha c = (isdigit c \<or> isalpha c)"
| "in_class AlnumOrUnderscore c = (isalnum c \<or> c = CHR ''_'')"

lemma in_class_NUL: "\<not> in_class k NUL"
  by (cases k) (simp_all add: isdigit_def isalpha_def isalnum_def NUL_def)

function scan_while :: "char_class \<Rightarrow> Lexer \<Rightarrow> string \<Rightarrow> string \<times> Lexer" where
  "scan_while k s v =
     (if in_class k (Lexer_peek s)
      then scan_while k (snd (Lexer_advance s)) (v @ [fst (Lexer_advance s)])
      else (v, s))"
  by pat_completeness auto
termination
proof (relation "measure (\<lambda>(k, s, v). length (source s) - pos s)", goal_cases)
  case 1
  show ?case by simp
next
  case (2 k s v)
  with in_class_NUL [of k] have "Lexer_peek s \<noteq> NUL" by auto
  then have "pos s < length (source s)" by (rule Lexer_peek_in_range)
  then show ?case by (simp add: Lexer_advance_source Lexer_advance_pos)
qed

declare scan_while.simps [simp del]

definition recognizeIdOrKeyword :: "Lexer \<Rightarrow> LexToken \<times> Lexer" where
  "recognizeIdOrKeyword s =
     (if isdigit (Lexer_peek s) then
        (case scan_while DigitOrAlpha s [] of (v, s1) \<Rightarrow>
           (makeError s1 (msg_illegal_identifier @ v), s1))
      else
        (case scan_while AlnumOrUnderscore s [] of (v, s1) \<Rightarrow>
           (case map_of keyword_table v of
              Some ty \<Rightarrow> (makeToken s1 ty v, s1)
            | None \<Rightarrow> (makeToken s1 LEX_ID v, s1))))"

text \<open>
  \<open>recognizeNumber\<close>, in its three stages: the integer part; the decimal point with its
  fraction and a possible second point; an alphabetic or underscore suffix.  The state
  carries the lexeme and the two flags \<open>hasDecimalPoint\<close> and \<open>isError\<close>.
\<close>

definition fraction_digits :: "string \<times> Lexer \<Rightarrow> (string \<times> Lexer) \<times> bool" where
  "fraction_digits vs =
     (case vs of (v, s) \<Rightarrow>
        if \<not> isdigit (Lexer_peek s) then ((v, s), True) else (scan_while Digit s v, False))"

definition second_point :: "(string \<times> Lexer) \<times> bool \<Rightarrow> (string \<times> Lexer) \<times> bool" where
  "second_point st =
     (case st of ((v, s), isError) \<Rightarrow>
        if Lexer_peek s = CHR ''.''
        then (scan_while Digit (snd (Lexer_advance s)) (v @ [fst (Lexer_advance s)]), True)
        else ((v, s), isError))"

definition number_fraction :: "string \<times> Lexer \<Rightarrow> (string \<times> Lexer) \<times> bool \<times> bool" where
  "number_fraction vs =
     (case vs of (v, s) \<Rightarrow>
        if Lexer_peek s = CHR ''.'' then
          (case second_point (fraction_digits (v @ [fst (Lexer_advance s)], snd (Lexer_advance s))) of
             (vs', isError) \<Rightarrow> (vs', True, isError))
        else ((v, s), False, False))"

definition number_suffix :: "(string \<times> Lexer) \<times> bool \<times> bool \<Rightarrow> (string \<times> Lexer) \<times> bool \<times> bool" where
  "number_suffix st =
     (case st of ((v, s), hasDecimalPoint, isError) \<Rightarrow>
        if isalpha (Lexer_peek s) \<or> Lexer_peek s = CHR ''_''
        then (scan_while AlnumOrUnderscore s v, hasDecimalPoint, True)
        else ((v, s), hasDecimalPoint, isError))"

definition recognizeNumber :: "Lexer \<Rightarrow> LexToken \<times> Lexer" where
  "recognizeNumber s =
     (case number_suffix (number_fraction (scan_while Digit s [])) of
        ((v, s1), hasDecimalPoint, isError) \<Rightarrow>
          if isError then (makeError s1 (msg_illegal_number @ v), s1)
          else (makeToken s1 (if hasDecimalPoint then LEX_FLOAT else LEX_NUM) v, s1))"

text \<open>
  \<open>recognizeOpOrSep\<close>: the two-character entry is looked up first in the operator
  table, then in the bitwise table; without one, the single character is looked up in
  the operator, bitwise and separator tables, in that order.
\<close>

definition single_symbol :: "Lexer \<Rightarrow> string \<Rightarrow> LexToken" where
  "single_symbol s v =
     (if table_count operators v then makeToken s LEX_OP v
      else if table_count bit_operators v then makeToken s LEX_BIT_OP v
      else if table_count separators v then makeToken s LEX_SEP v
      else makeError s (msg_unrecognized_symbol @ v))"

definition double_symbol :: "Lexer \<Rightarrow> string \<Rightarrow> LexTokenType \<Rightarrow> LexToken \<times> Lexer" where
  "double_symbol s v ty =
     (let v2 = v @ [fst (Lexer_advance s)]; s2 = snd (Lexer_advance s)
      in (makeToken s2 ty v2, s2))"

definition recognizeOpOrSep :: "Lexer \<Rightarrow> LexToken \<times> Lexer" where
  "recognizeOpOrSep s =
     (let v = [fst (Lexer_advance s)]; s1 = snd (Lexer_advance s);
          double_op = v @ [Lexer_peek s1]
      in case map_of operators double_op of
           Some ty \<Rightarrow> double_symbol s1 v ty
         | None \<Rightarrow>
             (case map_of bit_operators double_op of
                Some ty \<Rightarrow> double_symbol s1 v ty
              | None \<Rightarrow> (single_symbol s1 v, s1)))"

text \<open>
  \<open>getNextToken\<close>.  The two tokens it builds itself give no line and column; those
  members are then zero.
\<close>

definition getNextToken :: "Lexer \<Rightarrow> LexToken \<times> Lexer" where
  "getNextToken s0 =
     (let s = skipWhitespace s0; ch = Lexer_peek s in
      if isalpha ch \<or> ch = CHR ''_'' then recognizeIdOrKeyword s
      else if isdigit ch then recognizeNumber s
      else if table_count operators [ch] \<or> table_count separators [ch] then recognizeOpOrSep s
      else if ch = NUL then
        (\<lparr>lex_type = LEX_ERROR, lex_value = [], lex_line = 0, lex_column = 0\<rparr>, s)
      else
        (\<lparr>lex_type = LEX_ERROR, lex_value = msg_illegal_character @ [ch],
          lex_line = 0, lex_column = 0\<rparr>, snd (Lexer_advance s)))"

definition end_of_input :: "LexToken \<Rightarrow> bool" where
  "end_of_input t \<longleftrightarrow> lex_type t = LEX_ERROR \<and> lex_value t = []"

lemma scan_while_mono:
  "source (snd (scan_while k s v)) = source s \<and> pos s \<le> pos (snd (scan_while k s v))"
proof (induction k s v rule: scan_while.induct)
  case (1 k s v)
  show ?case
  proof (cases "in_class k (Lexer_peek s)")
    case True
    with 1 show ?thesis
      by (simp add: scan_while.simps [of k s] Lexer_advance_source Lexer_advance_pos split: if_splits)
  next
    case False
    then show ?thesis by (simp add: scan_while.simps [of k s])
  qed
qed

lemma scan_while_progress:
  assumes "in_class k (Lexer_peek s)"
  shows "pos s < pos (snd (scan_while k s v))"
proof -
  from assms in_class_NUL [of k] have "Lexer_peek s \<noteq> NUL" by auto
  then have "pos s < length (source s)" by (rule Lexer_peek_in_range)
  with assms scan_while_mono [of k "snd (Lexer_advance s)" "v @ [fst (Lexer_advance s)]"]
  show ?thesis by (simp add: scan_while.simps [of k s] Lexer_advance_pos)
qed

lemma skipWhitespace_mono:
  "source (skipWhitespace s) = source s \<and> pos s \<le> pos (skipWhitespace s)"
proof (induction s rule: skipWhitespace.induct)
  case (1 s)
  show ?case
  proof (cases "line_comment_start s")
    case True
    with "1.IH"(1) skip_line_mono [of s] show ?thesis
      by (simp add: skipWhitespace.simps [of s])
  next
    case nl: False
    show ?thesis
    proof (cases "block_comment_start s")
      case True
      obtain s1 b where sb: "skip_block (snd (Lexer_advance (snd (Lexer_advance s)))) = (s1, b)"
        by (cases "skip_block (snd (Lexer_advance (snd (Lexer_advance s))))")
      from skip_block_mono [of "snd (Lexer_advance (snd (Lexer_advance s)))"] sb
      have m: "source s1 = source s \<and> pos s \<le> pos s1"
        by (auto simp: Lexer_advance_source Lexer_advance_pos split: if_splits)
      show ?thesis
      proof (cases b)
        case True
        with nl \<open>block_comment_start s\<close> sb m show ?thesis
          by (simp add: skipWhitespace.simps [of s])
      next
        case False
        with "1.IH"(2) [OF nl \<open>block_comment_start s\<close> sb [symmetric]] nl \<open>block_comment_start s\<close> sb m
        show ?thesis
          by (auto simp: skipWhitespace.simps [of s] Lexer_advance_source Lexer_advance_pos split: if_splits)
      qed
    next
      case nb: False
      show ?thesis
      proof (cases "isspace (Lexer_peek s)")
        case True
        with "1.IH"(3) [OF nl nb True] nl nb show ?thesis
          by (auto simp: skipWhitespace.simps [of s] Lexer_advance_source Lexer_advance_pos split: if_splits)
      next
        case False
        with nl nb show ?thesis by (simp add: skipWhitespace.simps [of s])
      qed
    qed
  qed
qed

lemma recognizeIdOrKeyword_progress:
  assumes "isalpha (Lexer_peek s) \<or> Lexer_peek s = CHR ''_''"
  shows "source (snd (recognizeIdOrKeyword s)) = source s \<and> pos s < pos (snd (recognizeIdOrKeyword s))"
proof -
  from assms have nd: "\<not> isdigit (Lexer_peek s)"
    by (auto simp: isalpha_def isdigit_def Let_def)
  from assms have "in_class AlnumOrUnderscore (Lexer_peek s)" by (auto simp: isalnum_def)
  from scan_while_progress [OF this, of "[]"] scan_while_mono [of AlnumOrUnderscore s "[]"] nd
  show ?thesis
    by (auto simp: recognizeIdOrKeyword_def split: prod.splits option.splits)
qed

lemma fraction_digits_mono:
  "source (snd (fst (fraction_digits (v, s)))) = source s \<and>
   pos s \<le> pos (snd (fst (fraction_digits (v, s))))"
  using scan_while_mono [of Digit s v] by (simp add: fraction_digits_def)

lemma second_point_mono:
  "source (snd (fst (second_point ((v, s), e)))) = source s \<and>
   pos s \<le> pos (snd (fst (second_point ((v, s), e))))"
  using scan_while_mono [of Digit "snd (Lexer_advance s)" "v @ [fst (Lexer_advance s)]"]
  by (simp add: second_point_def Lexer_advance_source Lexer_advance_pos split: if_splits)

lemma number_fraction_mono:
  "source (snd (fst (number_fraction (v, s)))) = source s \<and>
   pos s \<le> pos (snd (fst (number_fraction (v, s))))"
proof (cases "Lexer_peek s = CHR ''.''")
  case False
  then show ?thesis by (simp add: number_fraction_def)
next
  case True
  let ?s1 = "snd (Lexer_advance s)" and ?v1 = "v @ [fst (Lexer_advance s)]"
  have a: "source ?s1 = source s \<and> pos s \<le> pos ?s1"
    by (simp add: Lexer_advance_source Lexer_advance_pos)
  obtain v2 s2 e2 where f: "fraction_digits (?v1, ?s1) = ((v2, s2), e2)"
    by (cases "fraction_digits (?v1, ?s1)") auto
  with fraction_digits_mono [of ?v1 ?s1] a have b: "source s2 = source s \<and> pos s \<le> pos s2"
    by simp
  obtain v3 s3 e3 where g: "second_point ((v2, s2), e2) = ((v3, s3), e3)"
    by (cases "second_point ((v2, s2), e2)") auto
  with second_point_mono [of v2 s2 e2] b have "source s3 = source s \<and> pos s \<le> pos s3"
    by simp
  with True f g show ?thesis by (simp add: number_fraction_def)
qed

lemma number_suffix_mono:
  "source (snd (fst (number_suffix ((v, s), h, e)))) = source s \<and>
   pos s \<le> pos (snd (fst (number_suffix ((v, s), h, e))))"
  using scan_while_mono [of AlnumOrUnderscore s v]
  by (auto simp: number_suffix_def)

lemma recognizeNumber_progress:
  assumes "isdigit (Lexer_peek s)"
  shows "source (snd (recognizeNumber s)) = source s \<and> pos s < pos (snd (recognizeNumber s))"
proof -
  obtain v1 s1 where a: "scan_while Digit s [] = (v1, s1)" by (cases "scan_while Digit s []")
  from assms scan_while_progress [of Digit s "[]"] scan_while_mono [of Digit s "[]"] a
  have 1: "source s1 = source s \<and> pos s < pos s1" by simp
  obtain v2 s2 h2 e2 where b: "number_fraction (v1, s1) = ((v2, s2), h2, e2)"
    by (cases "number_fraction (v1, s1)") auto
  from number_fraction_mono [of v1 s1] b 1
  have 2: "source s2 = source s \<and> pos s < pos s2" by simp
  obtain v3 s3 h3 e3 where c: "number_suffix ((v2, s2), h2, e2) = ((v3, s3), h3, e3)"
    by (cases "number_suffix ((v2, s2), h2, e2)") auto
  from number_suffix_mono [of v2 s2 h2 e2] c 2
  have 3: "source s3 = source s \<and> pos s < pos s3" by simp
  from a b c 3 show ?thesis by (simp add: recognizeNumber_def)
qed

lemma recognizeOpOrSep_progress:
  assumes "Lexer_peek s \<noteq> NUL"
  shows "source (snd (recognizeOpOrSep s)) = source s \<and> pos s < pos (snd (recognizeOpOrSep s))"
proof -
  from assms have "pos s < length (source s)" by (rule Lexer_peek_in_range)
  then show ?thesis
    by (auto simp: recognizeOpOrSep_def double_symbol_def Let_def Lexer_advance_source
          Lexer_advance_pos split: option.splits)
qed

lemma table_count_not_NUL:
  "table_count operators [c] \<or> table_count separators [c] \<Longrightarrow> c \<noteq> NUL"
  by (auto simp: table_count_def operators_def separators_def NUL_def split: if_splits)

lemma getNextToken_progress:
  assumes "\<not> end_of_input (fst (getNextToken s))"
  shows "source (snd (getNextToken s)) = source s \<and> pos s < pos (snd (getNextToken s))"
proof -
  let ?s = "skipWhitespace s"
  note m = skipWhitespace_mono [of s]
  consider (id) "isalpha (Lexer_peek ?s) \<or> Lexer_peek ?s = CHR ''_''"
    | (num) "\<not> (isalpha (Lexer_peek ?s) \<or> Lexer_peek ?s = CHR ''_'')" "isdigit (Lexer_peek ?s)"
    | (sym) "\<not> (isalpha (Lexer_peek ?s) \<or> Lexer_peek ?s = CHR ''_'')" "\<not> isdigit (Lexer_peek ?s)"
        "table_count operators [Lexer_peek ?s] \<or> table_count separators [Lexer_peek ?s]"
    | (other) "\<not> (isalpha (Lexer_peek ?s) \<or> Lexer_peek ?s = CHR ''_'')" "\<not> isdigit (Lexer_peek ?s)"
        "\<not> (table_count operators [Lexer_peek ?s] \<or> table_count separators [Lexer_peek ?s])"
    by blast
  then show ?thesis
  proof cases
    case id
    with recognizeIdOrKeyword_progress [OF id] m show ?thesis
      by (simp add: getNextToken_def Let_def)
  next
    case num
    with recognizeNumber_progress [OF num(2)] m show ?thesis
      by (simp add: getNextToken_def Let_def)
  next
    case sym
    from table_count_not_NUL [OF sym(3)] have "Lexer_peek ?s \<noteq> NUL" .
    from recognizeOpOrSep_progress [OF this] sym m show ?thesis
      by (simp add: getNextToken_def Let_def)
  next
    case other
    with assms have nn: "Lexer_peek ?s \<noteq> NUL"
      by (auto simp: getNextToken_def Let_def end_of_input_def)
    then have "pos ?s < length (source ?s)" by (rule Lexer_peek_in_range)
    with other nn m show ?thesis
      by (simp add: getNextToken_def Let_def Lexer_advance_source Lexer_advance_pos)
  qed
qed

text \<open>
  The driver: tokens are taken until the one with kind error and empty text, which is
  not part of the output.
\<close>

function scan_all :: "Lexer \<Rightarrow> LexToken list" where
  "scan_all s =
     (if end_of_input (fst (getNextToken s)) then []
      else fst (getNextToken s) # scan_all (snd (getNextToken s)))"
  by pat_completeness auto
termination
proof (relation "measure (\<lambda>s. length (source s) - pos s)", goal_cases)
  case 1
  show ?case by simp
next
  case (2 s)
  let ?s = "skipWhitespace s"
  from 2 have "Lexer_peek ?s \<noteq> NUL"
    by (auto simp: getNextToken_def Let_def end_of_input_def isalpha_def isdigit_def NUL_def
          table_count_def operators_def separators_def split: if_splits)
  then have "pos ?s < length (source ?s)" by (rule Lexer_peek_in_range)
  with skipWhitespace_mono [of s] getNextToken_progress [OF 2]
  show ?case by auto
qed

declare scan_all.simps [simp del]

subsection \<open>Positions as the specification counts them\<close>

text \<open>
  The 1-based line and column of the character at offset \<open>i\<close> of a text: the line is one
  more than the number of newlines before the offset, the column one more than the
  number of characters between the last of those newlines and the offset.  This is the
  specification's notion of position, against which the recorded positions are compared.
\<close>

definition position_of :: "string \<Rightarrow> nat \<Rightarrow> int \<times> int" where
  "position_of src i =
     (1 + int (length (filter (\<lambda>c. c = newline) (take i src))),
      1 + int (length (takeWhile (\<lambda>c. c \<noteq> newline) (rev (take i src)))))"

text \<open>The cursor agrees with the text: the line and column are those of the offset.\<close>

definition lexer_inv :: "Lexer \<Rightarrow> bool" where
  "lexer_inv s \<longleftrightarrow>
     pos s \<le> length (source s) \<and> position_of (source s) (pos s) = (line s, column s)"

text \<open>
  The cursor \<open>s'\<close> is reached from \<open>s\<close> by reading the characters \<open>w\<close>, none of them a
  newline.
\<close>

definition consumed :: "Lexer \<Rightarrow> string \<Rightarrow> Lexer \<Rightarrow> bool" where
  "consumed s w s' \<longleftrightarrow>
     source s' = source s \<and> pos s' = pos s + length w \<and> pos s' \<le> length (source s) \<and>
     w = take (length w) (drop (pos s) (source s)) \<and> newline \<notin> set w \<and>
     line s' = line s \<and> column s' = column s + int (length w)"

text \<open>
  What a recognizer does: it reads a lexeme without a newline, and unless the token is an
  error, the token has that lexeme as its text and the position of its first character.
\<close>

definition recognized :: "Lexer \<Rightarrow> LexToken \<times> Lexer \<Rightarrow> bool" where
  "recognized s r \<longleftrightarrow>
     (\<exists>w. consumed s w (snd r) \<and>
          (lex_type (fst r) \<noteq> LEX_ERROR \<longrightarrow>
             lex_value (fst r) = w \<and>
             (lex_line (fst r), lex_column (fst r)) = position_of (source s) (pos s)))"

section \<open>Properties of the parser\<close>

lemmas parser_eval =
  tok_def sentinel_def peek_def previous_def isAtEnd_def advance_def check1_def check2_def
  match1_def match2_def error_def consume1_def consume2_def precedence_table_def precedence_def
  processOp_def expr_continue_def parse_operand_def expr_step_def expr_loop.simps
  parseArithmeticExpr_def is_relop_def parseBoolExpr_def parse_init_def declarator_def
  decl_vars.simps parseDecl_def decls_vars.simps is_type_keyword_def match_type_def decl_group_def
  decls_loop.simps parseDecls_def parseAssignStmt_def ident_list.simps parseReadStmt_def
  parseWriteStmt_def if_header_def while_header_def for_init_def for_cond_def for_update_def
  for_header_def parseStmts_def parse_def Let_def

lemma fuel2: "n + 2 = Suc (Suc n)"
  by simp

lemma fuel3: "n + 3 = Suc (Suc (Suc n))"
  by simp

lemma fuel5: "n + 5 = Suc (Suc (Suc (Suc (Suc n))))"
  by simp

lemma expr_loop_stop:
  "expr_loop p ns os = Ok (p1, ns', os') \<Longrightarrow> \<not> expr_continue p1"
proof (induction p ns os rule: expr_loop.induct)
  case (1 p ns os)
  show ?case
  proof (cases "expr_continue p")
    case False
    with "1.prems" show ?thesis by (simp add: expr_loop.simps [of p])
  next
    case True
    with "1.prems" obtain q nsq osq where
      st: "expr_step p ns os = Ok (q, nsq, osq)" and lp: "expr_loop q nsq osq = Ok (p1, ns', os')"
      by (auto simp: expr_loop.simps [of p] rbind_Ok)
    from "1.IH" [OF True st refl refl lp] show ?thesis .
  qed
qed

lemma parseArithmeticExpr_stop:
  assumes "parseArithmeticExpr p = Ok (e, p1)"
  shows "\<not> expr_continue p1"
proof -
  from assms obtain q ns os where l: "expr_loop p [] [] = Ok (q, ns, os)"
    by (auto simp: parseArithmeticExpr_def error_def rbind_Ok split: if_splits)
  with assms have "q = p1"
    by (auto simp: parseArithmeticExpr_def error_def rbind_Ok split: if_splits
          elim!: finish_expr.elims)
  with expr_loop_stop [OF l] show ?thesis by simp
qed

lemma stop_not_relop: "\<not> expr_continue p \<Longrightarrow> \<not> is_relop p"
  by (auto simp: expr_continue_def is_relop_def check2_def split: if_splits)

lemma stop_not_rparen: "\<not> expr_continue p \<Longrightarrow> \<not> check2 p TOKEN_SEP '')''"
  by (auto simp: expr_continue_def check2_def split: if_splits)

lemma parseBoolExpr_stop:
  assumes "parseBoolExpr p = Ok (e, p1)"
  shows "\<not> expr_continue p1"
proof -
  from assms obtain l q where a: "parseArithmeticExpr p = Ok (l, q)"
    by (auto simp: parseBoolExpr_def rbind_Ok)
  from parseArithmeticExpr_stop [OF a] have s: "\<not> expr_continue q" .
  with assms a stop_not_relop [OF s] have "q = p1"
    by (auto simp: parseBoolExpr_def split: if_splits)
  with s show ?thesis by simp
qed

lemma parseBoolExpr_eq_arith: "parseBoolExpr p = parseArithmeticExpr p"
proof (cases "parseArithmeticExpr p")
  case (Ok x)
  obtain l q where x: "x = (l, q)" by (cases x)
  from parseArithmeticExpr_stop [of p l q] Ok x have "\<not> is_relop q"
    by (simp add: stop_not_relop)
  with Ok x show ?thesis by (simp add: parseBoolExpr_def)
qed (simp_all add: parseBoolExpr_def)

lemma no_rparen_after_cond:
  "parseBoolExpr p = Ok (c, q) \<Longrightarrow> consume2 q TOKEN_SEP '')'' m \<noteq> Ok r"
  using parseBoolExpr_stop [of p c q] stop_not_rparen [of q]
  by (auto simp: consume2_def error_def)

lemma while_header_fails: "while_header p \<noteq> Ok x"
  by (auto simp: while_header_def rbind_Ok dest: no_rparen_after_cond)

lemma if_header_fails: "if_header p \<noteq> Ok x"
  by (auto simp: if_header_def rbind_Ok dest: no_rparen_after_cond)

lemma parseWhileStmt_fails: "parseWhileStmt n p \<noteq> Ok x"
  by (cases n) (auto simp: rbind_Ok while_header_fails)

lemma parseIfStmt_fails: "parseIfStmt n p \<noteq> Ok x"
  by (cases n) (auto simp: rbind_Ok if_header_fails)


subsection \<open>The routines below the statement level always return or exit\<close>

lemma rbind_no_timeout:
  "m \<noteq> Timeout \<Longrightarrow> (\<And>x. m = Ok x \<Longrightarrow> f x \<noteq> Timeout) \<Longrightarrow> rbind m f \<noteq> Timeout"
  by (cases m) auto

lemma rbind_Timeout:
  "rbind m f = Timeout \<longleftrightarrow> m = Timeout \<or> (\<exists>x. m = Ok x \<and> f x = Timeout)"
  by (cases m) auto

lemma error_no_timeout [simp]: "error p m \<noteq> Timeout"
  by (simp add: error_def)

lemma consume1_no_timeout [simp]: "consume1 p ty m \<noteq> Timeout"
  by (simp add: consume1_def)

lemma consume2_no_timeout [simp]: "consume2 p ty v m \<noteq> Timeout"
  by (simp add: consume2_def)

lemma processOp_no_timeout [simp]: "processOp p op ns \<noteq> Timeout"
  by (simp add: processOp_def split: list.splits)

lemma reduce_paren_no_timeout [simp]: "reduce_paren p ns os \<noteq> Timeout"
  by (induction os arbitrary: ns) (auto simp: rbind_Timeout)

lemma reduce_prec_no_timeout [simp]: "reduce_prec p op ns os \<noteq> Timeout"
  by (induction os arbitrary: ns) (auto simp: rbind_Timeout)

lemma drain_no_timeout [simp]: "drain p ns os \<noteq> Timeout"
  by (induction os arbitrary: ns) (auto simp: rbind_Timeout)

lemma parse_operand_no_timeout [simp]: "parse_operand p \<noteq> Timeout"
  by (simp add: parse_operand_def Let_def)

lemma pop_paren_no_timeout [simp]: "pop_paren p ns os \<noteq> Timeout"
  by (cases os) simp_all

lemma expr_step_no_timeout [simp]: "expr_step p ns os \<noteq> Timeout"
  by (auto simp: expr_step_def Let_def rbind_Timeout)

lemma expr_loop_no_timeout [simp]: "expr_loop p ns os \<noteq> Timeout"
proof (induction p ns os rule: expr_loop.induct)
  case (1 p ns os)
  show ?case
  proof (cases "expr_continue p")
    case True
    have "rbind (expr_step p ns os) (\<lambda>(p1, ns', os'). expr_loop p1 ns' os') \<noteq> Timeout"
    proof (rule rbind_no_timeout)
      show "expr_step p ns os \<noteq> Timeout" by simp
    next
      fix x assume x: "expr_step p ns os = Ok x"
      obtain q a b where "x = (q, a, b)" by (cases x)
      with "1.IH" [OF True x] show "(case x of (p1, ns', os') \<Rightarrow> expr_loop p1 ns' os') \<noteq> Timeout"
        by simp
    qed
    with True show ?thesis by (simp add: expr_loop.simps [of p])
  next
    case False
    then show ?thesis by (simp add: expr_loop.simps [of p])
  qed
qed

lemma finish_expr_no_timeout [simp]: "finish_expr p ns \<noteq> Timeout"
  by (cases "(p, ns)" rule: finish_expr.cases) simp_all

lemma parseArithmeticExpr_no_timeout [simp]: "parseArithmeticExpr p \<noteq> Timeout"
  by (auto simp: parseArithmeticExpr_def rbind_Timeout)

lemma parseBoolExpr_no_timeout [simp]: "parseBoolExpr p \<noteq> Timeout"
  by (auto simp: parseBoolExpr_def rbind_Timeout split: prod.splits)

lemma parse_init_no_timeout [simp]: "parse_init ty p \<noteq> Timeout"
  by (simp add: parse_init_def)

lemma declarator_no_timeout [simp]: "declarator m ty p kids \<noteq> Timeout"
  by (auto simp: declarator_def Let_def rbind_Timeout)

lemma decl_vars_no_timeout [simp]: "decl_vars ty p kids \<noteq> Timeout"
proof (induction ty p kids rule: decl_vars.induct)
  case (1 ty p kids)
  have "rbind (declarator ''Expected variable name'' ty p kids) (\<lambda>(kids', p1).
       if fst (match2 p1 TOKEN_SEP '','')
       then decl_vars ty (snd (match2 p1 TOKEN_SEP '','')) kids'
       else Ok (kids', p1)) \<noteq> Timeout"
  proof (rule rbind_no_timeout)
    show "declarator ''Expected variable name'' ty p kids \<noteq> Timeout" by simp
  next
    fix x assume x: "declarator ''Expected variable name'' ty p kids = Ok x"
    obtain k q where xq: "x = (k, q)" by (cases x)
    with "1.IH" [OF x] show "(case x of (kids', p1) \<Rightarrow>
       if fst (match2 p1 TOKEN_SEP '','')
       then decl_vars ty (snd (match2 p1 TOKEN_SEP '','')) kids'
       else Ok (kids', p1)) \<noteq> Timeout"
      by auto
  qed
  then show ?case by (simp add: decl_vars.simps [of ty p])
qed

lemma decls_vars_no_timeout [simp]: "decls_vars ty p kids \<noteq> Timeout"
proof (induction ty p kids rule: decls_vars.induct)
  case (1 ty p kids)
  show ?case
  proof (cases "fst (match2 p TOKEN_SEP '';'')")
    case True
    then show ?thesis by (simp add: decls_vars.simps [of ty p])
  next
    case False
    have "rbind (declarator ''Expected variable name in declaration'' ty p kids) (\<lambda>(kids', p1).
       if fst (match2 p1 TOKEN_SEP '','')
       then decls_vars ty (snd (match2 p1 TOKEN_SEP '','')) kids'
       else Ok (kids', p1)) \<noteq> Timeout"
    proof (rule rbind_no_timeout)
      show "declarator ''Expected variable name in declaration'' ty p kids \<noteq> Timeout" by simp
    next
      fix x assume x: "declarator ''Expected variable name in declaration'' ty p kids = Ok x"
      obtain k q where xq: "x = (k, q)" by (cases x)
      with "1.IH" [OF False x] show "(case x of (kids', p1) \<Rightarrow>
         if fst (match2 p1 TOKEN_SEP '','')
         then decls_vars ty (snd (match2 p1 TOKEN_SEP '','')) kids'
         else Ok (kids', p1)) \<noteq> Timeout"
        by auto
    qed
    with False show ?thesis by (simp add: decls_vars.simps [of ty p])
  qed
qed

lemma parseDecl_no_timeout [simp]: "parseDecl p \<noteq> Timeout"
  by (auto simp: parseDecl_def rbind_Timeout)

lemma decl_group_no_timeout [simp]: "decl_group p \<noteq> Timeout"
  by (auto simp: decl_group_def rbind_Timeout split: prod.splits)

lemma decls_loop_no_timeout [simp]: "decls_loop p groups \<noteq> Timeout"
proof (induction p groups rule: decls_loop.induct)
  case (1 p groups)
  show ?case
  proof (cases "\<not> isAtEnd p \<and> is_type_keyword p")
    case True
    have "rbind (decl_group p) (\<lambda>(declNode, p1). decls_loop p1 (groups @ [Some declNode])) \<noteq> Timeout"
    proof (rule rbind_no_timeout)
      show "decl_group p \<noteq> Timeout" by simp
    next
      fix x assume x: "decl_group p = Ok x"
      obtain d q where "x = (d, q)" by (cases x)
      with "1.IH" [OF True x] show "(case x of (declNode, p1) \<Rightarrow> decls_loop p1 (groups @ [Some declNode])) \<noteq> Timeout"
        by auto
    qed
    with True show ?thesis by (simp add: decls_loop.simps [of p])
  next
    case False
    then show ?thesis by (auto simp: decls_loop.simps [of p])
  qed
qed

lemma parseDecls_no_timeout [simp]: "parseDecls p \<noteq> Timeout"
  by (simp add: parseDecls_def)

lemma parseAssignStmt_no_timeout [simp]: "parseAssignStmt p b \<noteq> Timeout"
  by (auto simp: parseAssignStmt_def Let_def rbind_Timeout)

lemma ident_list_no_timeout [simp]: "ident_list m p kids \<noteq> Timeout"
proof (induction m p kids rule: ident_list.induct)
  case (1 m p kids)
  have "rbind (consume1 p TOKEN_ID m) (\<lambda>p1.
       if fst (match2 p1 TOKEN_SEP '','')
       then ident_list m (snd (match2 p1 TOKEN_SEP '',''))
              (kids @ [Some (TreeNode NODE_ID (tok_value (previous p1)) [])])
       else Ok (kids @ [Some (TreeNode NODE_ID (tok_value (previous p1)) [])], p1)) \<noteq> Timeout"
  proof (rule rbind_no_timeout)
    show "consume1 p TOKEN_ID m \<noteq> Timeout" by simp
  next
    fix x assume x: "consume1 p TOKEN_ID m = Ok x"
    with "1.IH" [OF x] show "(if fst (match2 x TOKEN_SEP '','')
       then ident_list m (snd (match2 x TOKEN_SEP '',''))
              (kids @ [Some (TreeNode NODE_ID (tok_value (previous x)) [])])
       else Ok (kids @ [Some (TreeNode NODE_ID (tok_value (previous x)) [])], x)) \<noteq> Timeout"
      by auto
  qed
  then show ?case by (simp add: ident_list.simps [of m p])
qed

lemma parseReadStmt_no_timeout [simp]: "parseReadStmt p \<noteq> Timeout"
  by (auto simp: parseReadStmt_def rbind_Timeout)

lemma parseWriteStmt_no_timeout [simp]: "parseWriteStmt p \<noteq> Timeout"
  by (auto simp: parseWriteStmt_def rbind_Timeout)

lemma if_header_no_timeout [simp]: "if_header p \<noteq> Timeout"
  by (auto simp: if_header_def rbind_Timeout)

lemma while_header_no_timeout [simp]: "while_header p \<noteq> Timeout"
  by (auto simp: while_header_def rbind_Timeout)

lemma for_init_no_timeout [simp]: "for_init p \<noteq> Timeout"
  by (auto simp: for_init_def rbind_Timeout)

lemma for_cond_no_timeout [simp]: "for_cond p \<noteq> Timeout"
  by (auto simp: for_cond_def rbind_Timeout)

lemma for_update_no_timeout [simp]: "for_update p \<noteq> Timeout"
  by (auto simp: for_update_def rbind_Timeout)

lemma for_header_no_timeout [simp]: "for_header p \<noteq> Timeout"
  by (auto simp: for_header_def rbind_Timeout)

subsection \<open>Every statement routine that returns has consumed a token\<close>

lemma ident_list_step:
  "ident_list m p kids = Ok (k, p1) \<Longrightarrow> tokens p1 = tokens p \<and> current p < current p1"
proof (induction m p kids rule: ident_list.induct)
  case (1 m p kids)
  from "1.prems" obtain q where c: "consume1 p TOKEN_ID m = Ok q"
    by (auto simp: ident_list.simps [of m p] rbind_Ok)
  note s = consume1_step [OF c]
  show ?case
  proof (cases "fst (match2 q TOKEN_SEP '','')")
    case True
    with "1.prems" c have
      "ident_list m (snd (match2 q TOKEN_SEP '','')) (kids @ [Some (TreeNode NODE_ID (tok_value (previous q)) [])]) = Ok (k, p1)"
      by (simp add: ident_list.simps [of m p])
    from "1.IH" [OF c True this] match2_mono [of q TOKEN_SEP "'',''"] s show ?thesis by simp
  next
    case False
    with "1.prems" c s show ?thesis by (auto simp: ident_list.simps [of m p])
  qed
qed

lemma decl_vars_step:
  "decl_vars ty p kids = Ok (k, p1) \<Longrightarrow> tokens p1 = tokens p \<and> current p < current p1"
proof (induction ty p kids rule: decl_vars.induct)
  case (1 ty p kids)
  from "1.prems" obtain k1 q where d: "declarator ''Expected variable name'' ty p kids = Ok (k1, q)"
    by (auto simp: decl_vars.simps [of ty p] rbind_Ok)
  note s = declarator_step [OF d]
  show ?case
  proof (cases "fst (match2 q TOKEN_SEP '','')")
    case True
    with "1.prems" d have "decl_vars ty (snd (match2 q TOKEN_SEP '','')) k1 = Ok (k, p1)"
      by (simp add: decl_vars.simps [of ty p])
    from "1.IH" [OF d refl True this] match2_mono [of q TOKEN_SEP "'',''"] s show ?thesis by simp
  next
    case False
    with "1.prems" d s show ?thesis by (auto simp: decl_vars.simps [of ty p])
  qed
qed

lemma parseDecl_step:
  assumes "parseDecl p = Ok (d, p1)"
  shows "tokens p1 = tokens p \<and> current p < current p1"
proof -
  from assms obtain ty q where
    t: "(if fst (match2 p TOKEN_KEYWORD ''int'') then Ok (''int'', snd (match2 p TOKEN_KEYWORD ''int''))
         else if fst (match2 p TOKEN_KEYWORD ''float'') then Ok (''float'', snd (match2 p TOKEN_KEYWORD ''float''))
         else if fst (match2 p TOKEN_KEYWORD ''bool'') then Ok (''bool'', snd (match2 p TOKEN_KEYWORD ''bool''))
         else error p ''Expected type keyword in declaration'') = Ok (ty, q)"
    and r: "rbind (decl_vars ty q [Some (TreeNode NODE_TYPE ty [])]) (\<lambda>(kids, p2).
              rbind (consume2 p2 TOKEN_SEP '';'' ''Expected ';' after declaration'') (\<lambda>p3.
                Ok (TreeNode NODE_LIST [] kids, p3))) = Ok (d, p1)"
    by (auto simp: parseDecl_def rbind_Ok)
  from t have m: "tokens q = tokens p \<and> current p \<le> current q"
    by (auto simp: error_def match2_mono split: if_splits)
  from r obtain kids q2 where
    dv: "decl_vars ty q [Some (TreeNode NODE_TYPE ty [])] = Ok (kids, q2)" and
    c: "consume2 q2 TOKEN_SEP '';'' ''Expected ';' after declaration'' = Ok p1"
    by (auto simp: rbind_Ok)
  from decl_vars_step [OF dv] consume2_step [OF c] m show ?thesis by simp
qed

lemma parseAssignStmt_step:
  assumes "parseAssignStmt p b = Ok (a, p1)"
  shows "tokens p1 = tokens p \<and> current p < current p1"
proof -
  from assms obtain q where c: "consume1 p TOKEN_ID ''Expected identifier in assignment'' = Ok q"
    by (auto simp: parseAssignStmt_def rbind_Ok)
  note s = consume1_step [OF c]
  from assms c have "tokens p1 = tokens q \<and> current q \<le> current p1"
    by (auto simp: parseAssignStmt_def Let_def rbind_Ok split: if_splits
          dest!: consume1_step consume2_step parseBoolExpr_mono parseArithmeticExpr_mono)
  with s show ?thesis by simp
qed

lemma parseReadStmt_step:
  "parseReadStmt p = Ok (a, p1) \<Longrightarrow> tokens p1 = tokens p \<and> current p < current p1"
  by (auto simp: parseReadStmt_def rbind_Ok dest!: consume2_step ident_list_step)

lemma parseWriteStmt_step:
  "parseWriteStmt p = Ok (a, p1) \<Longrightarrow> tokens p1 = tokens p \<and> current p < current p1"
  by (auto simp: parseWriteStmt_def rbind_Ok split: if_splits
        dest!: consume1_step consume2_step ident_list_step match2_step)

lemma for_init_step:
  "for_init p = Ok (a, p1) \<Longrightarrow> tokens p1 = tokens p \<and> current p < current p1"
  by (auto simp: for_init_def rbind_Ok split: if_splits
        dest!: consume2_step parseDecl_step parseAssignStmt_step)

lemma for_cond_step:
  "for_cond p = Ok (a, p1) \<Longrightarrow> tokens p1 = tokens p \<and> current p < current p1"
  by (auto simp: for_cond_def rbind_Ok split: if_splits dest!: consume2_step parseBoolExpr_mono)

lemma for_update_step:
  "for_update p = Ok (a, p1) \<Longrightarrow> tokens p1 = tokens p \<and> current p < current p1"
  by (auto simp: for_update_def rbind_Ok split: if_splits dest!: consume2_step parseAssignStmt_step)

lemma for_header_step:
  "for_header p = Ok (a, p1) \<Longrightarrow>
     tokens p1 = tokens p \<and> current p < current p1 \<and> current p < length (tokens p)"
  by (auto simp: for_header_def rbind_Ok
        dest!: consume2_step for_init_step for_cond_step for_update_step)

lemma stmt_progress:
  "parseStmt n p = Ok (x, p') \<Longrightarrow> tokens p' = tokens p \<and> current p < current p'"
  "parseBlock n p = Ok (x, p') \<Longrightarrow> tokens p' = tokens p \<and> current p < current p'"
  "block_loop n p kids = Ok (ks, p') \<Longrightarrow> tokens p' = tokens p \<and> current p \<le> current p'"
  "parseIfStmt n p = Ok (x, p') \<Longrightarrow> tokens p' = tokens p \<and> current p < current p'"
  "if_branches n c p = Ok (x, p') \<Longrightarrow> tokens p' = tokens p \<and> current p < current p'"
  "parseWhileStmt n p = Ok (x, p') \<Longrightarrow> tokens p' = tokens p \<and> current p < current p'"
  "parseForStmt n p = Ok (x, p') \<Longrightarrow> tokens p' = tokens p \<and> current p < current p'"
proof (induction n p and n p and n p kids and n p and n c p and n p and n p
    arbitrary: x p' and x p' and ks p' and x p' and x p' and x p' and x p'
    rule: parseStmt_parseBlock_block_loop_parseIfStmt_if_branches_parseWhileStmt_parseForStmt.induct)
  case (1 p)
  then show ?case by simp
next
  case (2 n p)
  then show ?case
    by (auto split: if_splits simp: error_def
          dest!: parseReadStmt_step parseWriteStmt_step parseAssignStmt_step match2_step)
next
  case (3 p)
  then show ?case by simp
next
  case (4 n p)
  from "4.prems" obtain p1 kids p2 where
    a: "consume2 p TOKEN_SEP ''{'' ''Expected '{' to start block'' = Ok p1" and
    b: "block_loop n p1 [] = Ok (kids, p2)" and
    c: "consume2 p2 TOKEN_SEP ''}'' ''Expected '}' to end block'' = Ok p'"
    by (auto simp: rbind_Ok)
  from "4.IH" [OF a b] consume2_step [OF a] consume2_step [OF c] show ?case by simp
next
  case (5 p kids)
  then show ?case by simp
next
  case (6 n p kids)
  show ?case
  proof (cases "\<not> isAtEnd p \<and> \<not> check2 p TOKEN_SEP ''}''")
    case True
    with "6.prems" obtain s p1 where
      a: "parseStmt n p = Ok (s, p1)" and b: "block_loop n p1 (kids @ [Some s]) = Ok (ks, p')"
      by (auto simp: rbind_Ok)
    from "6.IH"(1) [OF True a] "6.IH"(2) [OF True a refl b] show ?thesis by simp
  next
    case False
    with "6.prems" show ?thesis by auto
  qed
next
  case (7 p)
  then show ?case by simp
next
  case (8 n p)
  from "8.prems" obtain c p1 where a: "if_header p = Ok (c, p1)"
    by (auto simp: rbind_Ok)
  with if_header_fails show ?case by blast
next
  case (9 c p)
  then show ?case by simp
next
  case (10 n c p)
  from "10.prems" obtain tb p2 where
    a: "(if fst (match2 p TOKEN_SEP ''{'') then parseBlock n (snd (match2 p TOKEN_SEP ''{''))
         else rbind (parseStmt n p) (\<lambda>(thenBranch, p1).
                Ok (thenBranch, if check2 p1 TOKEN_SEP '';'' then snd (advance p1) else p1)))
        = Ok (tb, p2)" and
    b: "(if fst (match2 p2 TOKEN_KEYWORD ''else'')
         then rbind (consume2 (snd (match2 p2 TOKEN_KEYWORD ''else'')) TOKEN_SEP ''{''
                       ''Expected '{' to start else block'') (\<lambda>p3.
              rbind (parseBlock n p3) (\<lambda>(elseBranch, p4).
                Ok (TreeNode NODE_IF [] [Some c, Some tb, Some elseBranch], p4)))
         else Ok (TreeNode NODE_IF [] [Some c, Some tb], p2)) = Ok (x, p')"
    by (auto simp: rbind_Ok)
  have m: "tokens p2 = tokens p \<and> current p < current p2"
  proof (cases "fst (match2 p TOKEN_SEP ''{'')")
    case True
    with a have "parseBlock n (snd (match2 p TOKEN_SEP ''{'')) = Ok (tb, p2)" by simp
    from "10.IH"(1) [OF True this] match2_step [OF True] show ?thesis by simp
  next
    case False
    with a obtain p1 where s: "parseStmt n p = Ok (tb, p1)"
      and e: "p2 = (if check2 p1 TOKEN_SEP '';'' then snd (advance p1) else p1)"
      by (auto simp: rbind_Ok)
    from "10.IH"(2) [OF False s] e show ?thesis
      by (auto simp: advance_tokens check2_advance)
  qed
  show ?case
  proof (cases "fst (match2 p2 TOKEN_KEYWORD ''else'')")
    case True
    with b obtain p3 eb where
      c3: "consume2 (snd (match2 p2 TOKEN_KEYWORD ''else'')) TOKEN_SEP ''{''
             ''Expected '{' to start else block'' = Ok p3" and
      pb: "parseBlock n p3 = Ok (eb, p')"
      by (auto simp: rbind_Ok)
    from "10.IH"(3) [OF a refl True c3 pb] consume2_step [OF c3] match2_step [OF True] m
    show ?thesis by simp
  next
    case False
    with b m show ?thesis by simp
  qed
next
  case (11 p)
  then show ?case by simp
next
  case (12 n p)
  from "12.prems" obtain c p1 where a: "while_header p = Ok (c, p1)"
    by (auto simp: rbind_Ok)
  with while_header_fails show ?case by blast
next
  case (13 p)
  then show ?case by simp
next
  case (14 n p)
  from "14.prems" obtain cl p1 body where
    a: "for_header p = Ok (cl, p1)" and
    b: "(if check2 p1 TOKEN_SEP ''{'' then parseBlock n p1
         else rbind (parseStmt n p1) (\<lambda>(stmt, p2). Ok (TreeNode NODE_BLOCK [] [Some stmt], p2))) = Ok (body, p')"
    by (auto simp: rbind_Ok)
  note h = for_header_step [OF a]
  show ?case
  proof (cases "check2 p1 TOKEN_SEP ''{''")
    case True
    with b "14.IH"(1) [OF a refl True] h show ?thesis by auto
  next
    case False
    with b obtain s where "parseStmt n p1 = Ok (s, p')" by (auto simp: rbind_Ok)
    from "14.IH"(2) [OF a refl False this] h show ?thesis by simp
  qed
qed

subsection \<open>A step budget of three per remaining token (and three more) is never used up\<close>

lemma remaining_less:
  "tokens q = tokens p \<and> current p < current q \<Longrightarrow> current p < length (tokens p) \<Longrightarrow>
     remaining q < remaining p"
  by (auto simp: remaining_def)

lemma remaining_le:
  "tokens q = tokens p \<and> current p \<le> current q \<Longrightarrow> remaining q \<le> remaining p"
  by (auto simp: remaining_def)

lemma consume2_remaining:
  "consume2 p ty v m = Ok q \<Longrightarrow> Suc (remaining q) = remaining p"
  by (drule consume2_step) (auto simp: remaining_def)

lemma match2_remaining:
  "fst (match2 p ty v) \<Longrightarrow> Suc (remaining (snd (match2 p ty v))) = remaining p"
  by (drule match2_step) (auto simp: remaining_def)

lemma not_isAtEnd_remaining: "\<not> isAtEnd p \<Longrightarrow> 0 < remaining p"
  by (drule not_isAtEnd_less) (simp add: remaining_def)

lemma stmt_total:
  "3 * remaining p + 2 \<le> n \<Longrightarrow> parseStmt n p \<noteq> Timeout"
  "3 * remaining p + 1 \<le> n \<Longrightarrow> parseBlock n p \<noteq> Timeout"
  "3 * remaining p + 3 \<le> n \<Longrightarrow> block_loop n p kids \<noteq> Timeout"
  "1 \<le> n \<Longrightarrow> parseIfStmt n p \<noteq> Timeout"
  "3 * remaining p + 3 \<le> n \<Longrightarrow> if_branches n c p \<noteq> Timeout"
  "1 \<le> n \<Longrightarrow> parseWhileStmt n p \<noteq> Timeout"
  "3 * remaining p + 1 \<le> n \<Longrightarrow> parseForStmt n p \<noteq> Timeout"
proof (induction n p and n p and n p kids and n p and n c p and n p and n p
    rule: parseStmt_parseBlock_block_loop_parseIfStmt_if_branches_parseWhileStmt_parseForStmt.induct)
  case (1 p)
  then show ?case by simp
next
  case (2 n p)
  then show ?case by (auto simp: error_def)
next
  case (3 p)
  then show ?case by simp
next
  case (4 n p)
  show ?case
  proof (cases "consume2 p TOKEN_SEP ''{'' ''Expected '{' to start block''")
    case (Ok p1)
    from consume2_remaining [OF Ok] "4.prems" have "3 * remaining p1 + 3 \<le> n" by simp
    from "4.IH" [OF Ok this] Ok show ?thesis by (auto simp: rbind_Timeout)
  qed (simp_all add: error_def)
next
  case (5 p kids)
  then show ?case by simp
next
  case (6 n p kids)
  show ?case
  proof (cases "\<not> isAtEnd p \<and> \<not> check2 p TOKEN_SEP ''}''")
    case True
    from "6.prems" have "3 * remaining p + 2 \<le> n" by simp
    from "6.IH"(1) [OF True this] have nt: "parseStmt n p \<noteq> Timeout" .
    show ?thesis
    proof (cases "parseStmt n p")
      case (Ok x)
      obtain s p1 where x: "x = (s, p1)" by (cases x)
      from stmt_progress(1) [of n p s p1] Ok x True
      have "remaining p1 < remaining p"
        by (auto intro!: remaining_less dest: not_isAtEnd_less)
      with "6.prems" have "3 * remaining p1 + 3 \<le> n" by simp
      from "6.IH"(2) [OF True Ok x [symmetric] this] True Ok x show ?thesis by simp
    next
      case (Fatal e)
      with True show ?thesis by simp
    next
      case Timeout
      with nt show ?thesis by simp
    qed
  next
    case False
    then show ?thesis by auto
  qed
next
  case (7 p)
  then show ?case by simp
next
  case (8 n p)
  show ?case
    using if_header_fails [of p] by (cases "if_header p") auto
next
  case (9 c p)
  then show ?case by simp
next
  case (10 n c p)
  let ?m = "(if fst (match2 p TOKEN_SEP ''{'') then parseBlock n (snd (match2 p TOKEN_SEP ''{''))
         else rbind (parseStmt n p) (\<lambda>(thenBranch, p1).
                Ok (thenBranch, if check2 p1 TOKEN_SEP '';'' then snd (advance p1) else p1)))"
  have m: "?m \<noteq> Timeout"
  proof (cases "fst (match2 p TOKEN_SEP ''{'')")
    case True
    from match2_remaining [OF True] "10.prems"
    have "3 * remaining (snd (match2 p TOKEN_SEP ''{'')) + 1 \<le> n" by simp
    from "10.IH"(1) [OF True this] True show ?thesis by simp
  next
    case False
    from "10.prems" have "3 * remaining p + 2 \<le> n" by simp
    from "10.IH"(2) [OF False this] False show ?thesis by (auto simp: rbind_Timeout)
  qed
  have "\<And>tb p2. ?m = Ok (tb, p2) \<Longrightarrow>
     (if fst (match2 p2 TOKEN_KEYWORD ''else'')
         then rbind (consume2 (snd (match2 p2 TOKEN_KEYWORD ''else'')) TOKEN_SEP ''{''
                       ''Expected '{' to start else block'') (\<lambda>p3.
              rbind (parseBlock n p3) (\<lambda>(elseBranch, p4).
                Ok (TreeNode NODE_IF [] [Some c, Some tb, Some elseBranch], p4)))
         else Ok (TreeNode NODE_IF [] [Some c, Some tb], p2)) \<noteq> Timeout"
  proof -
    fix tb p2 assume a: "?m = Ok (tb, p2)"
    have le: "remaining p2 \<le> remaining p"
    proof (cases "fst (match2 p TOKEN_SEP ''{'')")
      case True
      with a have "parseBlock n (snd (match2 p TOKEN_SEP ''{'')) = Ok (tb, p2)" by simp
      from stmt_progress(2) [OF this] match2_step [OF True] show ?thesis
        by (auto simp: remaining_def)
    next
      case False
      with a obtain p1 where s: "parseStmt n p = Ok (tb, p1)"
        and e: "p2 = (if check2 p1 TOKEN_SEP '';'' then snd (advance p1) else p1)"
        by (auto simp: rbind_Ok)
      from stmt_progress(1) [OF s] e show ?thesis
        by (auto simp: remaining_def advance_tokens check2_advance)
    qed
    show "(if fst (match2 p2 TOKEN_KEYWORD ''else'')
         then rbind (consume2 (snd (match2 p2 TOKEN_KEYWORD ''else'')) TOKEN_SEP ''{''
                       ''Expected '{' to start else block'') (\<lambda>p3.
              rbind (parseBlock n p3) (\<lambda>(elseBranch, p4).
                Ok (TreeNode NODE_IF [] [Some c, Some tb, Some elseBranch], p4)))
         else Ok (TreeNode NODE_IF [] [Some c, Some tb], p2)) \<noteq> Timeout"
    proof (cases "fst (match2 p2 TOKEN_KEYWORD ''else'')")
      case False
      then show ?thesis by simp
    next
      case True
      show ?thesis
      proof (cases "consume2 (snd (match2 p2 TOKEN_KEYWORD ''else'')) TOKEN_SEP ''{''
                       ''Expected '{' to start else block''")
        case (Ok p3)
        from consume2_remaining [OF Ok] match2_remaining [OF True] le "10.prems"
        have "3 * remaining p3 + 1 \<le> n" by simp
        from "10.IH"(3) [OF a refl True Ok this] True Ok show ?thesis
          by (auto simp: rbind_Timeout)
      qed (use True in \<open>simp_all add: error_def\<close>)
    qed
  qed
  with m show ?case by (auto simp: rbind_Timeout)
next
  case (11 p)
  then show ?case by simp
next
  case (12 n p)
  show ?case
    using while_header_fails [of p] by (cases "while_header p") auto
next
  case (13 p)
  then show ?case by simp
next
  case (14 n p)
  show ?case
  proof (cases "for_header p")
    case (Ok x)
    obtain cl p1 where x: "x = (cl, p1)" by (cases x)
    from for_header_step [of p cl p1] Ok x
    have lt: "remaining p1 < remaining p"
      by (auto simp: remaining_def)
    show ?thesis
    proof (cases "check2 p1 TOKEN_SEP ''{''")
      case True
      from lt "14.prems" have "3 * remaining p1 + 1 \<le> n" by simp
      from "14.IH"(1) [OF Ok x [symmetric] True this] Ok x True show ?thesis
        by (auto simp: rbind_Timeout)
    next
      case False
      from lt "14.prems" have "3 * remaining p1 + 2 \<le> n" by simp
      from "14.IH"(2) [OF Ok x [symmetric] False this] Ok x False show ?thesis
        by (auto simp: rbind_Timeout)
    qed
  qed simp_all
qed

subsection \<open>A larger step budget does not change an answer\<close>

lemma rbind_mono:
  assumes "rbind m f \<noteq> Timeout" and "\<And>x. m = Ok x \<Longrightarrow> f x \<noteq> Timeout \<Longrightarrow> g x = f x"
  shows "rbind m g = rbind m f"
  using assms by (cases m) auto

lemmas stmt_simps =
  parseStmt.simps parseBlock.simps block_loop.simps parseIfStmt.simps if_branches.simps
  parseWhileStmt.simps parseForStmt.simps

lemma fuel_Suc:
  "parseStmt n p \<noteq> Timeout \<Longrightarrow> parseStmt (Suc n) p = parseStmt n p"
  "parseBlock n p \<noteq> Timeout \<Longrightarrow> parseBlock (Suc n) p = parseBlock n p"
  "block_loop n p kids \<noteq> Timeout \<Longrightarrow> block_loop (Suc n) p kids = block_loop n p kids"
  "parseIfStmt n p \<noteq> Timeout \<Longrightarrow> parseIfStmt (Suc n) p = parseIfStmt n p"
  "if_branches n c p \<noteq> Timeout \<Longrightarrow> if_branches (Suc n) c p = if_branches n c p"
  "parseWhileStmt n p \<noteq> Timeout \<Longrightarrow> parseWhileStmt (Suc n) p = parseWhileStmt n p"
  "parseForStmt n p \<noteq> Timeout \<Longrightarrow> parseForStmt (Suc n) p = parseForStmt n p"
proof (induction n p and n p and n p kids and n p and n c p and n p and n p
    rule: parseStmt_parseBlock_block_loop_parseIfStmt_if_branches_parseWhileStmt_parseForStmt.induct)
  case (1 p)
  then show ?case by simp
next
  case (2 n p)
  from "2.prems" "2.IH" show ?case
    unfolding parseStmt.simps(2) [of "Suc n" p] parseStmt.simps(2) [of n p]
    by (auto simp del: stmt_simps)
next
  case (3 p)
  then show ?case by simp
next
  case (4 n p)
  from "4.prems" show ?case
    unfolding parseBlock.simps(2) [of "Suc n" p] parseBlock.simps(2) [of n p]
    by (intro rbind_mono) (auto simp del: stmt_simps simp: "4.IH" rbind_Timeout)
next
  case (5 p kids)
  then show ?case by simp
next
  case (6 n p kids)
  show ?case
  proof (cases "\<not> isAtEnd p \<and> \<not> check2 p TOKEN_SEP ''}''")
    case True
    with "6.prems" have nt: "rbind (parseStmt n p) (\<lambda>(stmt, p1). block_loop n p1 (kids @ [Some stmt])) \<noteq> Timeout"
      by simp
    then have s: "parseStmt n p \<noteq> Timeout" by (auto simp del: stmt_simps simp: rbind_Timeout)
    from "6.IH"(1) [OF True s] have e: "parseStmt (Suc n) p = parseStmt n p" .
    have "rbind (parseStmt n p) (\<lambda>(stmt, p1). block_loop (Suc n) p1 (kids @ [Some stmt]))
        = rbind (parseStmt n p) (\<lambda>(stmt, p1). block_loop n p1 (kids @ [Some stmt]))"
    proof (rule rbind_mono [OF nt])
      fix x assume x: "parseStmt n p = Ok x"
        and y: "(case x of (stmt, p1) \<Rightarrow> block_loop n p1 (kids @ [Some stmt])) \<noteq> Timeout"
      obtain s p1 where xs: "x = (s, p1)" by (cases x)
      from "6.IH"(2) [OF True x xs [symmetric]] y xs
      show "(case x of (stmt, p1) \<Rightarrow> block_loop (Suc n) p1 (kids @ [Some stmt]))
          = (case x of (stmt, p1) \<Rightarrow> block_loop n p1 (kids @ [Some stmt]))"
        by (simp del: stmt_simps)
    qed
    with True e show ?thesis
      unfolding block_loop.simps(2) [of "Suc n" p] block_loop.simps(2) [of n p]
      by (simp del: stmt_simps)
  next
    case False
    then show ?thesis by auto
  qed
next
  case (7 p)
  then show ?case by simp
next
  case (8 n p)
  show ?case
    using if_header_fails [of p] by (cases "if_header p") auto
next
  case (9 c p)
  then show ?case by simp
next
  case (10 n c p)
  let ?m = "\<lambda>k. (if fst (match2 p TOKEN_SEP ''{'') then parseBlock k (snd (match2 p TOKEN_SEP ''{''))
         else rbind (parseStmt k p) (\<lambda>(thenBranch, p1).
                Ok (thenBranch, if check2 p1 TOKEN_SEP '';'' then snd (advance p1) else p1)))"
  let ?f = "\<lambda>k. (\<lambda>(thenBranch, p2).
          if fst (match2 p2 TOKEN_KEYWORD ''else'')
          then rbind (consume2 (snd (match2 p2 TOKEN_KEYWORD ''else'')) TOKEN_SEP ''{''
                        ''Expected '{' to start else block'') (\<lambda>p3.
               rbind (parseBlock k p3) (\<lambda>(elseBranch, p4).
                 Ok (TreeNode NODE_IF [] [Some c, Some thenBranch, Some elseBranch], p4)))
          else Ok (TreeNode NODE_IF [] [Some c, Some thenBranch], p2))"
  from "10.prems" have nt: "rbind (?m n) (?f n) \<noteq> Timeout"
    by (simp del: stmt_simps add: if_branches.simps(2) [of n c p])
  then have mt: "?m n \<noteq> Timeout" by (auto simp del: stmt_simps simp: rbind_Timeout)
  have m: "?m (Suc n) = ?m n"
  proof (cases "fst (match2 p TOKEN_SEP ''{'')")
    case True
    with mt "10.IH"(1) [OF True] show ?thesis by (simp del: stmt_simps)
  next
    case False
    with mt have "parseStmt n p \<noteq> Timeout" by (auto simp del: stmt_simps simp: rbind_Timeout)
    from "10.IH"(2) [OF False this] False show ?thesis by (simp del: stmt_simps)
  qed
  have "rbind (?m n) (?f (Suc n)) = rbind (?m n) (?f n)"
  proof (rule rbind_mono [OF nt])
    fix x assume x: "?m n = Ok x" and y: "?f n x \<noteq> Timeout"
    obtain tb p2 where xs: "x = (tb, p2)" by (cases x)
    show "?f (Suc n) x = ?f n x"
    proof (cases "fst (match2 p2 TOKEN_KEYWORD ''else'')")
      case False
      with xs show ?thesis by (simp del: stmt_simps)
    next
      case True
      let ?c = "consume2 (snd (match2 p2 TOKEN_KEYWORD ''else'')) TOKEN_SEP ''{''
                        ''Expected '{' to start else block''"
      from y xs True have y': "rbind ?c (\<lambda>p3.
               rbind (parseBlock n p3) (\<lambda>(elseBranch, p4).
                 Ok (TreeNode NODE_IF [] [Some c, Some tb, Some elseBranch], p4))) \<noteq> Timeout"
        by (simp del: stmt_simps)
      have "rbind ?c (\<lambda>p3.
               rbind (parseBlock (Suc n) p3) (\<lambda>(elseBranch, p4).
                 Ok (TreeNode NODE_IF [] [Some c, Some tb, Some elseBranch], p4)))
          = rbind ?c (\<lambda>p3.
               rbind (parseBlock n p3) (\<lambda>(elseBranch, p4).
                 Ok (TreeNode NODE_IF [] [Some c, Some tb, Some elseBranch], p4)))"
      proof (rule rbind_mono [OF y'])
        fix p3 assume c3: "?c = Ok p3"
          and z: "rbind (parseBlock n p3) (\<lambda>(elseBranch, p4).
                 Ok (TreeNode NODE_IF [] [Some c, Some tb, Some elseBranch], p4)) \<noteq> Timeout"
        then have "parseBlock n p3 \<noteq> Timeout" by (auto simp del: stmt_simps simp: rbind_Timeout)
        from "10.IH"(3) [OF x xs [symmetric] True c3 this]
        show "rbind (parseBlock (Suc n) p3) (\<lambda>(elseBranch, p4).
                 Ok (TreeNode NODE_IF [] [Some c, Some tb, Some elseBranch], p4))
            = rbind (parseBlock n p3) (\<lambda>(elseBranch, p4).
                 Ok (TreeNode NODE_IF [] [Some c, Some tb, Some elseBranch], p4))"
          by (simp del: stmt_simps)
      qed
      with True xs show ?thesis by (simp del: stmt_simps)
    qed
  qed
  with m show ?case
    by (simp del: stmt_simps add: if_branches.simps(2) [of n c p] if_branches.simps(2) [of "Suc n" c p])
next
  case (11 p)
  then show ?case by simp
next
  case (12 n p)
  show ?case
    using while_header_fails [of p] by (cases "while_header p") auto
next
  case (13 p)
  then show ?case by simp
next
  case (14 n p)
  let ?b = "\<lambda>k p1. (if check2 p1 TOKEN_SEP ''{'' then parseBlock k p1
            else rbind (parseStmt k p1) (\<lambda>(stmt, p2).
                   Ok (TreeNode NODE_BLOCK [] [Some stmt], p2)))"
  let ?f = "\<lambda>k. (\<lambda>(clauses, p1).
     rbind (?b k p1) (\<lambda>(body, p3). Ok (TreeNode NODE_FOR [] (clauses @ [Some body]), p3)))"
  from "14.prems" have nt: "rbind (for_header p) (?f n) \<noteq> Timeout"
    by (simp del: stmt_simps add: parseForStmt.simps(2) [of n p])
  have "rbind (for_header p) (?f (Suc n)) = rbind (for_header p) (?f n)"
  proof (rule rbind_mono [OF nt])
    fix x assume x: "for_header p = Ok x" and y: "?f n x \<noteq> Timeout"
    obtain cl p1 where xs: "x = (cl, p1)" by (cases x)
    from y xs have bt: "?b n p1 \<noteq> Timeout" by (auto simp del: stmt_simps simp: rbind_Timeout)
    have "?b (Suc n) p1 = ?b n p1"
    proof (cases "check2 p1 TOKEN_SEP ''{''")
      case True
      with bt "14.IH"(1) [OF x xs [symmetric] True] show ?thesis by (simp del: stmt_simps)
    next
      case False
      with bt have "parseStmt n p1 \<noteq> Timeout" by (auto simp del: stmt_simps simp: rbind_Timeout)
      from "14.IH"(2) [OF x xs [symmetric] False this] False show ?thesis by (simp del: stmt_simps)
    qed
    with xs show "?f (Suc n) x = ?f n x" by (simp del: stmt_simps)
  qed
  then show ?case
    by (simp del: stmt_simps add: parseForStmt.simps(2) [of n p] parseForStmt.simps(2) [of "Suc n" p])
qed

lemma stmts_loop_Suc:
  "stmts_loop n p kids \<noteq> Timeout \<Longrightarrow> stmts_loop (Suc n) p kids = stmts_loop n p kids"
proof (induction n p kids rule: stmts_loop.induct)
  case (1 p kids)
  then show ?case by simp
next
  case (2 n p kids)
  show ?case
  proof (cases "\<not> isAtEnd p \<and> \<not> check2 p TOKEN_SEP ''}''")
    case True
    with "2.prems" have nt: "rbind (parseStmt n p) (\<lambda>(stmt, p1). stmts_loop n p1 (kids @ [Some stmt])) \<noteq> Timeout"
      by simp
    then have s: "parseStmt n p \<noteq> Timeout" by (auto simp del: stmt_simps simp: rbind_Timeout)
    from fuel_Suc(1) [OF s] have e: "parseStmt (Suc n) p = parseStmt n p" .
    have "rbind (parseStmt n p) (\<lambda>(stmt, p1). stmts_loop (Suc n) p1 (kids @ [Some stmt]))
        = rbind (parseStmt n p) (\<lambda>(stmt, p1). stmts_loop n p1 (kids @ [Some stmt]))"
    proof (rule rbind_mono [OF nt])
      fix x assume x: "parseStmt n p = Ok x"
        and y: "(case x of (stmt, p1) \<Rightarrow> stmts_loop n p1 (kids @ [Some stmt])) \<noteq> Timeout"
      obtain s p1 where xs: "x = (s, p1)" by (cases x)
      from "2.IH" [OF True x xs [symmetric]] y xs
      show "(case x of (stmt, p1) \<Rightarrow> stmts_loop (Suc n) p1 (kids @ [Some stmt]))
          = (case x of (stmt, p1) \<Rightarrow> stmts_loop n p1 (kids @ [Some stmt]))"
        by (simp del: stmts_loop.simps)
    qed
    with True e show ?thesis
      unfolding stmts_loop.simps(2) [of "Suc n" p] stmts_loop.simps(2) [of n p]
      by (simp del: stmt_simps stmts_loop.simps)
  next
    case False
    then show ?thesis by auto
  qed
qed

lemma stmts_loop_total:
  "3 * remaining p + 3 \<le> n \<Longrightarrow> stmts_loop n p kids \<noteq> Timeout"
proof (induction n p kids rule: stmts_loop.induct)
  case (1 p kids)
  then show ?case by simp
next
  case (2 n p kids)
  show ?case
  proof (cases "\<not> isAtEnd p \<and> \<not> check2 p TOKEN_SEP ''}''")
    case True
    from "2.prems" have "3 * remaining p + 2 \<le> n" by simp
    from stmt_total(1) [OF this] have nt: "parseStmt n p \<noteq> Timeout" .
    show ?thesis
    proof (cases "parseStmt n p")
      case (Ok x)
      obtain s p1 where x: "x = (s, p1)" by (cases x)
      from stmt_progress(1) [of n p s p1] Ok x True
      have "remaining p1 < remaining p"
        by (auto intro!: remaining_less dest: not_isAtEnd_less)
      with "2.prems" have "3 * remaining p1 + 3 \<le> n" by simp
      from "2.IH" [OF True Ok x [symmetric] this] True Ok x show ?thesis by simp
    next
      case (Fatal e)
      with True show ?thesis by simp
    next
      case Timeout
      with nt show ?thesis by simp
    qed
  next
    case False
    then show ?thesis by auto
  qed
qed

lemma stmts_loop_ge:
  "stmts_loop n p kids \<noteq> Timeout \<Longrightarrow> stmts_loop (n + k) p kids = stmts_loop n p kids"
proof (induction k)
  case 0
  show ?case by simp
next
  case (Suc k)
  from Suc have "stmts_loop (n + k) p kids \<noteq> Timeout" by simp
  from stmts_loop_Suc [OF this] Suc show ?case by (simp del: stmts_loop.simps)
qed


lemma decls_loop_mono:
  "decls_loop p groups = Ok (d, p1) \<Longrightarrow> tokens p1 = tokens p \<and> current p \<le> current p1"
proof (induction p groups rule: decls_loop.induct)
  case (1 p groups)
  show ?case
  proof (cases "\<not> isAtEnd p \<and> is_type_keyword p")
    case True
    with "1.prems" obtain g q where
      a: "decl_group p = Ok (g, q)" and b: "decls_loop q (groups @ [Some g]) = Ok (d, p1)"
      by (auto simp: decls_loop.simps [of p] rbind_Ok)
    from "1.IH" [OF True a refl b] decl_group_step [OF a] show ?thesis by simp
  next
    case False
    with "1.prems" show ?thesis by (auto simp: decls_loop.simps [of p])
  qed
qed

lemma parse_total:
  assumes "3 * length ts + 3 \<le> n"
  shows "parse n ts \<noteq> Timeout \<and> parse n ts = parse (3 * length ts + 3) ts"
proof (cases "parseDecls \<lparr>tokens = ts, current = 0\<rparr>")
  case (Ok x)
  obtain d p1 where x: "x = (d, p1)" by (cases x)
  from Ok x decls_loop_mono [of "\<lparr>tokens = ts, current = 0\<rparr>" "[]" d p1]
  have "remaining p1 \<le> length ts" by (simp add: parseDecls_def remaining_def)
  then have b: "3 * remaining p1 + 3 \<le> 3 * length ts + 3" by simp
  from stmts_loop_total [OF b] have nt: "stmts_loop (3 * length ts + 3) p1 [] \<noteq> Timeout" .
  from assms obtain k where n: "n = 3 * length ts + 3 + k" by (auto simp: le_iff_add)
  from stmts_loop_ge [OF nt, of k] n
  have e: "stmts_loop n p1 [] = stmts_loop (3 * length ts + 3) p1 []" by simp
  with nt Ok x show ?thesis
    by (auto simp: parse_def parseStmts_def rbind_Timeout)
next
  case (Fatal e)
  then show ?thesis by (simp add: parse_def)
next
  case Timeout
  then show ?thesis by simp
qed

section \<open>Properties of the lexer\<close>

subsection \<open>Recorded positions of the tokens that are not errors\<close>

lemma position_of_Suc:
  assumes "i < length src"
  shows "position_of src (Suc i) =
     (if src ! i = newline then (fst (position_of src i) + 1, 1)
      else (fst (position_of src i), snd (position_of src i) + 1))"
  using assms by (simp add: position_of_def take_Suc_conv_app_nth)

lemma Lexer_advance_inv:
  "lexer_inv s \<Longrightarrow> pos s < length (source s) \<Longrightarrow> lexer_inv (snd (Lexer_advance s))"
  by (auto simp: lexer_inv_def Lexer_advance_def Let_def position_of_Suc)

lemma lexer_inv_Lexer: "lexer_inv (Lexer src)"
  by (simp add: lexer_inv_def Lexer_def position_of_def)

lemma skip_line_inv: "lexer_inv s \<Longrightarrow> lexer_inv (skip_line s)"
proof (induction s rule: skip_line.induct)
  case (1 s)
  show ?case
  proof (cases "Lexer_peek s \<noteq> newline \<and> Lexer_peek s \<noteq> NUL")
    case True
    then have "pos s < length (source s)" by (simp add: Lexer_peek_in_range)
    from "1.IH" [OF True Lexer_advance_inv [OF "1.prems" this]] True show ?thesis
      by (simp add: skip_line.simps [of s])
  next
    case False
    with "1.prems" show ?thesis by (auto simp: skip_line.simps [of s])
  qed
qed

lemma skip_block_inv: "lexer_inv s \<Longrightarrow> lexer_inv (fst (skip_block s))"
proof (induction s rule: skip_block.induct)
  case (1 s)
  show ?case
  proof (cases "\<not> (Lexer_peek s = CHR ''*'' \<and> peek_next s = CHR ''/'') \<and> Lexer_peek s \<noteq> NUL")
    case True
    then have a: "\<not> (Lexer_peek s = CHR ''*'' \<and> peek_next s = CHR ''/'')" and b: "Lexer_peek s \<noteq> NUL"
      by simp_all
    from b have "pos s < length (source s)" by (rule Lexer_peek_in_range)
    from "1.IH" [OF a b Lexer_advance_inv [OF "1.prems" this]] a b show ?thesis
      by (simp add: skip_block.simps [of s])
  next
    case False
    with "1.prems" show ?thesis by (auto simp: skip_block.simps [of s])
  qed
qed

lemma peek_next_in_range: "peek_next s \<noteq> NUL \<Longrightarrow> pos s + 1 < length (source s)"
  by (simp add: peek_next_def split: if_splits)

lemma peek_next_advance:
  "pos s < length (source s) \<Longrightarrow> Lexer_peek (snd (Lexer_advance s)) = peek_next s"
  by (simp add: Lexer_peek_def peek_next_def Lexer_advance_def Let_def)

lemma two_advances_inv:
  assumes "lexer_inv s" and "Lexer_peek s \<noteq> NUL" and "peek_next s \<noteq> NUL"
  shows "lexer_inv (snd (Lexer_advance (snd (Lexer_advance s))))"
proof -
  from assms(2) have r: "pos s < length (source s)" by (rule Lexer_peek_in_range)
  from peek_next_in_range [OF assms(3)] r
  have "pos (snd (Lexer_advance s)) < length (source (snd (Lexer_advance s)))"
    by (simp add: Lexer_advance_pos Lexer_advance_source)
  with Lexer_advance_inv [OF assms(1) r] show ?thesis by (rule Lexer_advance_inv)
qed

lemma skip_block_end:
  "skip_block s = (s1, False) \<Longrightarrow> Lexer_peek s1 = CHR ''*'' \<and> peek_next s1 = CHR ''/''"
proof (induction s rule: skip_block.induct)
  case (1 s)
  show ?case
  proof (cases "\<not> (Lexer_peek s = CHR ''*'' \<and> peek_next s = CHR ''/'') \<and> Lexer_peek s \<noteq> NUL")
    case True
    then have a: "\<not> (Lexer_peek s = CHR ''*'' \<and> peek_next s = CHR ''/'')" and b: "Lexer_peek s \<noteq> NUL"
      by simp_all
    from "1.prems" a b have "skip_block (snd (Lexer_advance s)) = (s1, False)"
      by (simp add: skip_block.simps [of s])
    from "1.IH" [OF a b this] show ?thesis .
  next
    case False
    with "1.prems" show ?thesis by (auto simp: skip_block.simps [of s] split: if_splits)
  qed
qed

lemma skipWhitespace_inv: "lexer_inv s \<Longrightarrow> lexer_inv (skipWhitespace s)"
proof (induction s rule: skipWhitespace.induct)
  case (1 s)
  show ?case
  proof (cases "line_comment_start s")
    case True
    from "1.IH"(1) [OF True skip_line_inv [OF "1.prems"]] True show ?thesis
      by (simp add: skipWhitespace.simps [of s])
  next
    case nl: False
    show ?thesis
    proof (cases "block_comment_start s")
      case True
      let ?s2 = "snd (Lexer_advance (snd (Lexer_advance s)))"
      from True have "Lexer_peek s \<noteq> NUL" "peek_next s \<noteq> NUL"
        by (auto simp: block_comment_start_def NUL_def)
      from two_advances_inv [OF "1.prems" this] have i2: "lexer_inv ?s2" .
      obtain s1 b where sb: "skip_block ?s2 = (s1, b)" by (cases "skip_block ?s2")
      from skip_block_inv [OF i2] sb have i1: "lexer_inv s1" by simp
      show ?thesis
      proof (cases b)
        case True
        with nl \<open>block_comment_start s\<close> sb i1 show ?thesis
          by (simp add: skipWhitespace.simps [of s])
      next
        case False
        with sb skip_block_end [of ?s2 s1] have "Lexer_peek s1 \<noteq> NUL" "peek_next s1 \<noteq> NUL"
          by (auto simp: NUL_def)
        from two_advances_inv [OF i1 this]
        have "lexer_inv (snd (Lexer_advance (snd (Lexer_advance s1))))" .
        from "1.IH"(2) [OF nl \<open>block_comment_start s\<close> sb [symmetric] _ this] False
          nl \<open>block_comment_start s\<close> sb
        show ?thesis by (simp add: skipWhitespace.simps [of s])
      qed
    next
      case nb: False
      show ?thesis
      proof (cases "isspace (Lexer_peek s)")
        case True
        then have "Lexer_peek s \<noteq> NUL" by (auto simp: isspace_def NUL_def)
        then have "pos s < length (source s)" by (rule Lexer_peek_in_range)
        from "1.IH"(3) [OF nl nb True Lexer_advance_inv [OF "1.prems" this]] nl nb True
        show ?thesis by (simp add: skipWhitespace.simps [of s])
      next
        case False
        with nl nb "1.prems" show ?thesis by (simp add: skipWhitespace.simps [of s])
      qed
    qed
  qed
qed

lemma consumed_refl: "pos s \<le> length (source s) \<Longrightarrow> consumed s [] s"
  by (simp add: consumed_def)

lemma consumed_advance:
  assumes "consumed s0 w s" and "Lexer_peek s \<noteq> NUL" and "Lexer_peek s \<noteq> newline"
  shows "consumed s0 (w @ [fst (Lexer_advance s)]) (snd (Lexer_advance s))"
proof -
  from assms(2) have r: "pos s < length (source s)" by (rule Lexer_peek_in_range)
  with assms(3) have c: "source s ! pos s \<noteq> newline" by (simp add: Lexer_peek_def)
  from assms(1) r have
    "take (Suc (length w)) (drop (pos s0) (source s0)) = w @ [source s0 ! (pos s0 + length w)]"
    by (auto simp: consumed_def take_Suc_conv_app_nth)
  with assms(1) r c show ?thesis
    by (auto simp: consumed_def Lexer_advance_def Let_def)
qed

lemma in_class_not_newline: "in_class k c \<Longrightarrow> c \<noteq> newline"
  by (cases k) (auto simp: isdigit_def isalpha_def isalnum_def newline_def Let_def)

lemma scan_while_consumed:
  "consumed s0 v s \<Longrightarrow> consumed s0 (fst (scan_while k s v)) (snd (scan_while k s v))"
proof (induction k s v rule: scan_while.induct)
  case (1 k s v)
  show ?case
  proof (cases "in_class k (Lexer_peek s)")
    case True
    with in_class_NUL [of k] in_class_not_newline [OF True]
    have "Lexer_peek s \<noteq> NUL" "Lexer_peek s \<noteq> newline" by auto
    from "1.IH" [OF True consumed_advance [OF "1.prems" this]] True show ?thesis
      by (simp add: scan_while.simps [of k s])
  next
    case False
    with "1.prems" show ?thesis by (simp add: scan_while.simps [of k s])
  qed
qed

lemma position_of_add:
  "i + n \<le> length src \<Longrightarrow> newline \<notin> set (take n (drop i src)) \<Longrightarrow>
     position_of src (i + n) = (fst (position_of src i), snd (position_of src i) + int n)"
proof (induction n)
  case 0
  show ?case by simp
next
  case (Suc n)
  from Suc.prems have r: "i + n < length src" by simp
  then have "take (Suc n) (drop i src) = take n (drop i src) @ [src ! (i + n)]"
    by (simp add: take_Suc_conv_app_nth)
  with Suc.prems have a: "newline \<notin> set (take n (drop i src))" and b: "src ! (i + n) \<noteq> newline"
    by auto
  from Suc.IH [OF _ a] r have "position_of src (i + n)
      = (fst (position_of src i), snd (position_of src i) + int n)" by simp
  with position_of_Suc [OF r] b show ?case by simp
qed

lemma consumed_inv:
  assumes "lexer_inv s" and "consumed s w s'"
  shows "lexer_inv s'"
proof -
  from assms(2) have "pos s + length w \<le> length (source s)"
    and "newline \<notin> set (take (length w) (drop (pos s) (source s)))"
    by (auto simp: consumed_def)
  from position_of_add [OF this] assms show ?thesis
    by (simp add: lexer_inv_def consumed_def)
qed

lemma makeToken_position:
  assumes "lexer_inv s" and "consumed s w s'"
  shows "(lex_line (makeToken s' ty w), lex_column (makeToken s' ty w))
     = position_of (source s) (pos s)"
  using assms by (simp add: makeToken_def lexer_inv_def consumed_def)

lemma recognizedI:
  assumes "lexer_inv s" and "consumed s w s'"
  shows "recognized s (makeToken s' ty w, s')"
    and "recognized s (makeError s' m, s')"
  using assms makeToken_position [OF assms, of ty]
  by (auto simp: recognized_def makeError_def) (auto simp: makeToken_def)

lemma recognizeIdOrKeyword_recognized:
  assumes "lexer_inv s"
  shows "recognized s (recognizeIdOrKeyword s)"
proof -
  from assms have c: "consumed s [] s" by (simp add: consumed_refl lexer_inv_def)
  from scan_while_consumed [OF c, of DigitOrAlpha] scan_while_consumed [OF c, of AlnumOrUnderscore]
  show ?thesis
    by (auto simp: recognizeIdOrKeyword_def split: prod.splits option.splits
          intro!: recognizedI [OF assms])
qed

lemma fraction_digits_consumed:
  "consumed s0 v s \<Longrightarrow>
     consumed s0 (fst (fst (fraction_digits (v, s)))) (snd (fst (fraction_digits (v, s))))"
  using scan_while_consumed [of s0 v s Digit] by (simp add: fraction_digits_def)

lemma dot_not_special: "CHR ''.'' \<noteq> NUL" "CHR ''.'' \<noteq> newline"
  by (simp_all add: NUL_def newline_def)

lemma second_point_consumed:
  assumes "consumed s0 v s"
  shows "consumed s0 (fst (fst (second_point ((v, s), e)))) (snd (fst (second_point ((v, s), e))))"
proof (cases "Lexer_peek s = CHR ''.''")
  case True
  with consumed_advance [OF assms] dot_not_special
  have "consumed s0 (v @ [fst (Lexer_advance s)]) (snd (Lexer_advance s))" by simp
  from scan_while_consumed [OF this, of Digit] True show ?thesis
    by (simp add: second_point_def)
next
  case False
  with assms show ?thesis by (simp add: second_point_def)
qed

lemma number_fraction_consumed:
  assumes "consumed s0 v s"
  shows "consumed s0 (fst (fst (number_fraction (v, s)))) (snd (fst (number_fraction (v, s))))"
proof (cases "Lexer_peek s = CHR ''.''")
  case True
  let ?s1 = "snd (Lexer_advance s)" and ?v1 = "v @ [fst (Lexer_advance s)]"
  from True consumed_advance [OF assms] dot_not_special
  have a: "consumed s0 ?v1 ?s1" by simp
  obtain v2 s2 e2 where f: "fraction_digits (?v1, ?s1) = ((v2, s2), e2)"
    by (cases "fraction_digits (?v1, ?s1)") auto
  with fraction_digits_consumed [OF a] have b: "consumed s0 v2 s2" by simp
  obtain v3 s3 e3 where g: "second_point ((v2, s2), e2) = ((v3, s3), e3)"
    by (cases "second_point ((v2, s2), e2)") auto
  with second_point_consumed [OF b, of e2] have "consumed s0 v3 s3" by simp
  with True f g show ?thesis by (simp add: number_fraction_def)
next
  case False
  with assms show ?thesis by (simp add: number_fraction_def)
qed

lemma number_suffix_consumed:
  "consumed s0 v s \<Longrightarrow>
     consumed s0 (fst (fst (number_suffix ((v, s), h, e)))) (snd (fst (number_suffix ((v, s), h, e))))"
  using scan_while_consumed [of s0 v s AlnumOrUnderscore] by (simp add: number_suffix_def)

lemma recognizeNumber_recognized:
  assumes "lexer_inv s"
  shows "recognized s (recognizeNumber s)"
proof -
  from assms have c: "consumed s [] s" by (simp add: consumed_refl lexer_inv_def)
  obtain v1 s1 where a: "scan_while Digit s [] = (v1, s1)" by (cases "scan_while Digit s []")
  with scan_while_consumed [OF c, of Digit] have 1: "consumed s v1 s1" by simp
  obtain v2 s2 h2 e2 where b: "number_fraction (v1, s1) = ((v2, s2), h2, e2)"
    by (cases "number_fraction (v1, s1)") auto
  with number_fraction_consumed [OF 1] have 2: "consumed s v2 s2" by simp
  obtain v3 s3 h3 e3 where d: "number_suffix ((v2, s2), h2, e2) = ((v3, s3), h3, e3)"
    by (cases "number_suffix ((v2, s2), h2, e2)") auto
  with number_suffix_consumed [OF 2, of h2 e2] have 3: "consumed s v3 s3" by simp
  from a b d recognizedI [OF assms 3] show ?thesis
    by (simp add: recognizeNumber_def)
qed

lemma symbol_not_special:
  "table_count operators [c] \<or> table_count separators [c] \<Longrightarrow> c \<noteq> NUL \<and> c \<noteq> newline"
  by (auto simp: table_count_def operators_def separators_def NUL_def newline_def split: if_splits)

lemma double_symbol_not_special:
  "map_of operators [c, d] = Some ty \<or> map_of bit_operators [c, d] = Some ty \<Longrightarrow>
     d \<noteq> NUL \<and> d \<noteq> newline"
  by (auto simp: operators_def bit_operators_def NUL_def newline_def split: if_splits)

lemma recognizeOpOrSep_recognized:
  assumes "lexer_inv s"
    and t: "table_count operators [Lexer_peek s] \<or> table_count separators [Lexer_peek s]"
  shows "recognized s (recognizeOpOrSep s)"
proof -
  let ?s1 = "snd (Lexer_advance s)" and ?v = "[fst (Lexer_advance s)]"
  from assms(1) have c: "consumed s [] s" by (simp add: consumed_refl lexer_inv_def)
  from symbol_not_special [OF t] consumed_advance [OF c]
  have 1: "consumed s ?v ?s1" by simp
  have 2: "recognized s (double_symbol ?s1 ?v ty)"
    if "map_of operators (?v @ [Lexer_peek ?s1]) = Some ty' \<or>
        map_of bit_operators (?v @ [Lexer_peek ?s1]) = Some ty'" for ty ty'
  proof -
    from that double_symbol_not_special [of "fst (Lexer_advance s)" "Lexer_peek ?s1" ty']
    have "Lexer_peek ?s1 \<noteq> NUL" "Lexer_peek ?s1 \<noteq> newline" by simp_all
    from consumed_advance [OF 1 this] recognizedI(1) [OF assms(1)] show ?thesis
      by (simp add: double_symbol_def Let_def)
  qed
  have 3: "recognized s (single_symbol ?s1 ?v, ?s1)"
    using recognizedI [OF assms(1) 1] by (simp add: single_symbol_def)
  from 2 3 show ?thesis
    by (auto simp: recognizeOpOrSep_def Let_def split: option.splits)
qed

lemma getNextToken_recognized:
  assumes "lexer_inv s"
  shows "lexer_inv (snd (getNextToken s))"
    and "lex_type (fst (getNextToken s)) \<noteq> LEX_ERROR \<Longrightarrow>
         recognized (skipWhitespace s) (getNextToken s)"
proof -
  let ?s = "skipWhitespace s"
  from skipWhitespace_inv [OF assms] have i: "lexer_inv ?s" .
  have r: "recognized ?s (getNextToken s)"
    if "isalpha (Lexer_peek ?s) \<or> Lexer_peek ?s = CHR ''_'' \<or> isdigit (Lexer_peek ?s) \<or>
        table_count operators [Lexer_peek ?s] \<or> table_count separators [Lexer_peek ?s]"
    using that recognizeIdOrKeyword_recognized [OF i] recognizeNumber_recognized [OF i]
      recognizeOpOrSep_recognized [OF i]
    by (auto simp: getNextToken_def Let_def)
  show "lexer_inv (snd (getNextToken s))"
  proof (cases "isalpha (Lexer_peek ?s) \<or> Lexer_peek ?s = CHR ''_'' \<or> isdigit (Lexer_peek ?s) \<or>
        table_count operators [Lexer_peek ?s] \<or> table_count separators [Lexer_peek ?s]")
    case True
    from r [OF True] consumed_inv [OF i] show ?thesis by (auto simp: recognized_def)
  next
    case False
    show ?thesis
    proof (cases "Lexer_peek ?s = NUL")
      case True
      with False i show ?thesis by (simp add: getNextToken_def Let_def)
    next
      case F: False
      then have "pos ?s < length (source ?s)" by (rule Lexer_peek_in_range)
      from Lexer_advance_inv [OF i this] False F show ?thesis
        by (simp add: getNextToken_def Let_def)
    qed
  qed
  show "recognized ?s (getNextToken s)" if "lex_type (fst (getNextToken s)) \<noteq> LEX_ERROR"
  proof (cases "isalpha (Lexer_peek ?s) \<or> Lexer_peek ?s = CHR ''_'' \<or> isdigit (Lexer_peek ?s) \<or>
        table_count operators [Lexer_peek ?s] \<or> table_count separators [Lexer_peek ?s]")
    case True
    from r [OF True] show ?thesis .
  next
    case False
    with that show ?thesis by (simp add: getNextToken_def Let_def split: if_splits)
  qed
qed

lemma scan_all_positions:
  assumes "lexer_inv s" and "t \<in> set (scan_all s)" and "lex_type t \<noteq> LEX_ERROR"
  shows "\<exists>i. i + length (lex_value t) \<le> length (source s) \<and>
     lex_value t = take (length (lex_value t)) (drop i (source s)) \<and>
     (lex_line t, lex_column t) = position_of (source s) i"
  using assms
proof (induction s rule: scan_all.induct)
  case (1 s)
  show ?case
  proof (cases "end_of_input (fst (getNextToken s))")
    case True
    with "1.prems" show ?thesis by (simp add: scan_all.simps [of s])
  next
    case False
    with "1.prems"(2) consider (head) "t = fst (getNextToken s)"
      | (tail) "t \<in> set (scan_all (snd (getNextToken s)))"
      by (auto simp: scan_all.simps [of s])
    then show ?thesis
    proof cases
      case head
      with "1.prems"(3) getNextToken_recognized(2) [OF "1.prems"(1)]
      have "recognized (skipWhitespace s) (t, snd (getNextToken s))" by simp
      with "1.prems"(3) skipWhitespace_mono [of s] show ?thesis
        by (auto simp: recognized_def consumed_def intro!: exI [of _ "pos (skipWhitespace s)"])
    next
      case tail
      from "1.IH" [OF False getNextToken_recognized(1) [OF "1.prems"(1)] tail "1.prems"(3)]
        getNextToken_progress [OF False]
      show ?thesis by simp
    qed
  qed
qed

subsection \<open>The end of the scan\<close>

lemma table_kinds:
  "map_of keyword_table v = Some ty \<Longrightarrow> ty \<noteq> LEX_ERROR"
  "map_of operators v = Some ty \<Longrightarrow> ty \<noteq> LEX_ERROR"
  "map_of bit_operators v = Some ty \<Longrightarrow> ty \<noteq> LEX_ERROR"
  by (auto simp: keyword_table_def operators_def bit_operators_def split: if_splits)

lemma recognizeIdOrKeyword_not_end: "\<not> end_of_input (fst (recognizeIdOrKeyword s))"
  by (auto simp: recognizeIdOrKeyword_def end_of_input_def makeToken_def makeError_def
        msg_illegal_identifier_def split: prod.splits option.splits dest: table_kinds)

lemma recognizeNumber_not_end: "\<not> end_of_input (fst (recognizeNumber s))"
  by (auto simp: recognizeNumber_def end_of_input_def makeToken_def makeError_def
        msg_illegal_number_def split: prod.splits)

lemma recognizeOpOrSep_not_end: "\<not> end_of_input (fst (recognizeOpOrSep s))"
  by (auto simp: recognizeOpOrSep_def double_symbol_def single_symbol_def end_of_input_def
        makeToken_def makeError_def msg_unrecognized_symbol_def Let_def
        split: option.splits dest: table_kinds)

lemma end_of_input_iff:
  "end_of_input (fst (getNextToken s)) \<longleftrightarrow> Lexer_peek (skipWhitespace s) = NUL"
proof
  assume e: "end_of_input (fst (getNextToken s))"
  with recognizeIdOrKeyword_not_end recognizeNumber_not_end recognizeOpOrSep_not_end
  show "Lexer_peek (skipWhitespace s) = NUL"
    by (auto simp: getNextToken_def Let_def split: if_splits)
       (simp add: end_of_input_def)
next
  assume "Lexer_peek (skipWhitespace s) = NUL"
  then show "end_of_input (fst (getNextToken s))"
    by (auto simp: getNextToken_def Let_def end_of_input_def isalpha_def isdigit_def NUL_def
          table_count_def operators_def separators_def)
qed

section \<open>The claims\<close>

text \<open>
  Claim C1.  A while statement \<open>while ( cond ) body\<close> with a well-formed condition is
  said to parse to a While node with the two children condition and body, the closing
  parenthesis after the condition being taken by the statement.  The statement routine
  does try to take it, but the expression engine does not stop at a closing parenthesis:
  it treats the one after the condition as unmatched and the parse exits.  On the tokens
  of \<open>while ( a < b ) { }\<close> the parser exits with "Unmatched parentheses", whatever
  the step budget from 3 on; and no call of \<open>parseWhileStmt\<close> returns a node, on any
  token sequence.
\<close>

theorem while_condition_paren_is_fatal:
  "parse (n + 3)
     [tok TOKEN_KEYWORD ''while'', tok TOKEN_SEP ''('', tok TOKEN_ID ''a'', tok TOKEN_OP ''<'',
      tok TOKEN_ID ''b'', tok TOKEN_SEP '')'', tok TOKEN_SEP ''{'', tok TOKEN_SEP ''}'']
   = Fatal ''Syntax error: Unmatched parentheses at token: {''
   \<and> parseWhileStmt m p \<noteq> Ok x"
  unfolding fuel3 by (simp add: parser_eval parseWhileStmt_fails)

text \<open>
  Claim C2.  An if statement \<open>if ( cond ) { s1 ... sn } [ else { ... } ]\<close> is said to
  parse to an If node whose then-branch holds all statements of the braced block, the
  closing brace being consumed by the if construct.  On the tokens of
  \<open>if ( a ) { b = 1 ; }\<close> the parser exits with "Unmatched parentheses" (the closing
  parenthesis of the condition, as for while), and no call of \<open>parseIfStmt\<close> returns a
  node.  The part of the routine after the opening brace, run on \<open>b = 1 ; c = 2 ; }\<close>,
  takes the single statement \<open>b = 1 ;\<close> as the then-branch and returns with the rest of
  the block and its closing brace unconsumed.
\<close>

theorem if_statement_is_fatal_and_branch_is_one_statement:
  "parse (n + 3)
     [tok TOKEN_KEYWORD ''if'', tok TOKEN_SEP ''('', tok TOKEN_ID ''a'', tok TOKEN_SEP '')'',
      tok TOKEN_SEP ''{'', tok TOKEN_ID ''b'', tok TOKEN_OP ''='', tok TOKEN_NUM ''1'',
      tok TOKEN_SEP '';'', tok TOKEN_SEP ''}'']
   = Fatal ''Syntax error: Unmatched parentheses at token: {''
   \<and> parseIfStmt m p \<noteq> Ok x
   \<and> if_branches (k + 2) cond
        \<lparr>tokens = [tok TOKEN_ID ''b'', tok TOKEN_OP ''='', tok TOKEN_NUM ''1'', tok TOKEN_SEP '';'',
                   tok TOKEN_ID ''c'', tok TOKEN_OP ''='', tok TOKEN_NUM ''2'', tok TOKEN_SEP '';'',
                   tok TOKEN_SEP ''}''],
         current = 0\<rparr>
     = Ok (TreeNode NODE_IF []
             [Some cond,
              Some (TreeNode NODE_ASSIGN ''=''
                      [Some (TreeNode NODE_ID ''b'' []),
                       Some (TreeNode NODE_EXPR [] [Some (TreeNode NODE_NUM ''1'' [])])])],
           \<lparr>tokens = [tok TOKEN_ID ''b'', tok TOKEN_OP ''='', tok TOKEN_NUM ''1'', tok TOKEN_SEP '';'',
                      tok TOKEN_ID ''c'', tok TOKEN_OP ''='', tok TOKEN_NUM ''2'', tok TOKEN_SEP '';'',
                      tok TOKEN_SEP ''}''],
            current = 4\<rparr>)"
  unfolding fuel3 fuel2 by (simp add: parser_eval parseIfStmt_fails)

text \<open>
  Claim C3.  A minus sign relabelled \<open>neg\<close> is said to be reduced as a unary operator
  with one operand, so that \<open>a = -1 + 2;\<close> parses to \<open>Op(+, Op(neg, 1), 2)\<close>.  The
  relabelling is done, but the reduction treats only \<open>!\<close>, \<open>++\<close> and \<open>--\<close> as unary:
  \<open>neg\<close> with one operand on the stack is the fatal "Missing operands for binary
  operator", and that is how the parse of \<open>a = -1 + 2;\<close> ends.  The other half of the
  claim holds: \<open>a = 1 - 2;\<close> parses to \<open>Op(-, 1, 2)\<close>.
\<close>

theorem unary_minus_is_reduced_as_binary:
  "parse (n + 3)
     [tok TOKEN_ID ''a'', tok TOKEN_OP ''='', tok TOKEN_OP ''-'', tok TOKEN_NUM ''1'',
      tok TOKEN_OP ''+'', tok TOKEN_NUM ''2'', tok TOKEN_SEP '';'']
   = Fatal ''Syntax error: Missing operands for binary operator at token: ;''
   \<and> processOp p ''neg'' [operand] = error p ''Missing operands for binary operator''
   \<and> parse (n + 3)
       [tok TOKEN_ID ''a'', tok TOKEN_OP ''='', tok TOKEN_NUM ''1'', tok TOKEN_OP ''-'',
        tok TOKEN_NUM ''2'', tok TOKEN_SEP '';'']
     = Ok (TreeNode NODE_BLOCK []
             [Some (TreeNode NODE_DECLS [] []),
              Some (TreeNode NODE_STMTS []
                [Some (TreeNode NODE_ASSIGN ''=''
                   [Some (TreeNode NODE_ID ''a'' []),
                    Some (TreeNode NODE_EXPR []
                      [Some (TreeNode NODE_OP ''-''
                         [Some (TreeNode NODE_NUM ''1'' []),
                          Some (TreeNode NODE_NUM ''2'' [])])])])])])"
  unfolding fuel3 by (simp add: parser_eval)

text \<open>
  Claim C7.  The statements \<open>a = 1 2;\<close> and \<open>a = ;\<close> both end the parse with a fatal
  diagnostic and no tree.  After the drain loop of the expression engine exactly one
  operand must be left: none is the fatal "Empty expression", more than one is the fatal
  "Malformed expression", and exactly one is wrapped in an expression node.
\<close>

theorem malformed_expressions_are_fatal:
  "parse (n + 3)
     [tok TOKEN_ID ''a'', tok TOKEN_OP ''='', tok TOKEN_NUM ''1'', tok TOKEN_NUM ''2'',
      tok TOKEN_SEP '';'']
   = Fatal ''Syntax error: Malformed expression at token: ;''
   \<and> parse (n + 3) [tok TOKEN_ID ''a'', tok TOKEN_OP ''='', tok TOKEN_SEP '';'']
     = Fatal ''Syntax error: Empty expression not allowed here at token: ;''
   \<and> (\<not> check2 p TOKEN_SEP '';'' \<and> expr_loop p [] [] = Ok (p1, nodeStack, opStack) \<and>
        drain p1 nodeStack opStack = Ok rest \<longrightarrow>
        (rest = [] \<longrightarrow> parseArithmeticExpr p = error p1 ''Empty expression'') \<and>
        (1 < length rest \<longrightarrow> parseArithmeticExpr p = error p1 ''Malformed expression'') \<and>
        (length rest = 1 \<longrightarrow>
           parseArithmeticExpr p = Ok (TreeNode NODE_EXPR [] [Some (hd rest)], p1)))"
proof -
  have a: "parse (n + 3)
     [tok TOKEN_ID ''a'', tok TOKEN_OP ''='', tok TOKEN_NUM ''1'', tok TOKEN_NUM ''2'',
      tok TOKEN_SEP '';'']
   = Fatal ''Syntax error: Malformed expression at token: ;''"
    unfolding fuel3 by (simp add: parser_eval)
  have b: "parse (n + 3) [tok TOKEN_ID ''a'', tok TOKEN_OP ''='', tok TOKEN_SEP '';'']
     = Fatal ''Syntax error: Empty expression not allowed here at token: ;''"
    unfolding fuel3 by (simp add: parser_eval)
  have c: "\<not> check2 p TOKEN_SEP '';'' \<and> expr_loop p [] [] = Ok (p1, nodeStack, opStack) \<and>
        drain p1 nodeStack opStack = Ok rest \<longrightarrow>
        (rest = [] \<longrightarrow> parseArithmeticExpr p = error p1 ''Empty expression'') \<and>
        (1 < length rest \<longrightarrow> parseArithmeticExpr p = error p1 ''Malformed expression'') \<and>
        (length rest = 1 \<longrightarrow>
           parseArithmeticExpr p = Ok (TreeNode NODE_EXPR [] [Some (hd rest)], p1))"
    by (cases "(p1, rest)" rule: finish_expr.cases) (auto simp: parseArithmeticExpr_def)
  from a b c show ?thesis by blast
qed

theorem malformed_expressions_are_fatal_witness:
  "(let p = \<lparr>tokens = [tok TOKEN_ID ''a'', tok TOKEN_OP ''='', tok TOKEN_NUM ''1'',
                       tok TOKEN_NUM ''2'', tok TOKEN_SEP '';''], current = 2\<rparr>;
        p1 = p\<lparr>current := 4\<rparr>
    in \<not> check2 p TOKEN_SEP '';'' \<and>
       expr_loop p [] [] = Ok (p1, [TreeNode NODE_NUM ''2'' [], TreeNode NODE_NUM ''1'' []], []) \<and>
       drain p1 [TreeNode NODE_NUM ''2'' [], TreeNode NODE_NUM ''1'' []] []
         = Ok [TreeNode NODE_NUM ''2'' [], TreeNode NODE_NUM ''1'' []] \<and>
       parseArithmeticExpr p = error p1 ''Malformed expression'')
   \<and> (let q = \<lparr>tokens = [tok TOKEN_ID ''a'', tok TOKEN_OP ''='', tok TOKEN_SEP '',''],
               current = 2\<rparr>
      in \<not> check2 q TOKEN_SEP '';'' \<and> expr_loop q [] [] = Ok (q, [], []) \<and>
         drain q [] [] = Ok [] \<and> parseArithmeticExpr q = error q ''Empty expression'')
   \<and> (let r = \<lparr>tokens = [tok TOKEN_ID ''a'', tok TOKEN_OP ''='', tok TOKEN_NUM ''1'',
                         tok TOKEN_SEP '';''], current = 2\<rparr>;
          r1 = r\<lparr>current := 3\<rparr>
      in \<not> check2 r TOKEN_SEP '';'' \<and> expr_loop r [] [] = Ok (r1, [TreeNode NODE_NUM ''1'' []], []) \<and>
         drain r1 [TreeNode NODE_NUM ''1'' []] [] = Ok [TreeNode NODE_NUM ''1'' []] \<and>
         parseArithmeticExpr r
           = Ok (TreeNode NODE_EXPR [] [Some (TreeNode NODE_NUM ''1'' [])], r1))"
  using
    malformed_expressions_are_fatal
      [of 0 "\<lparr>tokens = [tok TOKEN_ID ''a'', tok TOKEN_OP ''='', tok TOKEN_NUM ''1'',
                        tok TOKEN_NUM ''2'', tok TOKEN_SEP '';''], current = 2\<rparr>"
          "\<lparr>tokens = [tok TOKEN_ID ''a'', tok TOKEN_OP ''='', tok TOKEN_NUM ''1'',
                      tok TOKEN_NUM ''2'', tok TOKEN_SEP '';''], current = 4\<rparr>"
          "[TreeNode NODE_NUM ''2'' [], TreeNode NODE_NUM ''1'' []]" "[]"
          "[TreeNode NODE_NUM ''2'' [], TreeNode NODE_NUM ''1'' []]"]
    malformed_expressions_are_fatal
      [of 0 "\<lparr>tokens = [tok TOKEN_ID ''a'', tok TOKEN_OP ''='', tok TOKEN_SEP '',''],
               current = 2\<rparr>"
          "\<lparr>tokens = [tok TOKEN_ID ''a'', tok TOKEN_OP ''='', tok TOKEN_SEP '',''],
               current = 2\<rparr>" "[]" "[]" "[]"]
    malformed_expressions_are_fatal
      [of 0 "\<lparr>tokens = [tok TOKEN_ID ''a'', tok TOKEN_OP ''='', tok TOKEN_NUM ''1'',
                        tok TOKEN_SEP '';''], current = 2\<rparr>"
          "\<lparr>tokens = [tok TOKEN_ID ''a'', tok TOKEN_OP ''='', tok TOKEN_NUM ''1'',
                      tok TOKEN_SEP '';''], current = 3\<rparr>"
          "[TreeNode NODE_NUM ''1'' []]" "[]" "[TreeNode NODE_NUM ''1'' []]"]
  by (simp add: parser_eval)

text \<open>
  Claim C8.  \<open>for ( ; ; ) { }\<close> parses to a For node with the four child slots init,
  condition, update and body, where the first three are null pointers (not empty
  expression nodes) and the fourth is a Block node without children.
\<close>

theorem for_with_all_clauses_omitted:
  "parse (n + 5)
     [tok TOKEN_KEYWORD ''for'', tok TOKEN_SEP ''('', tok TOKEN_SEP '';'', tok TOKEN_SEP '';'',
      tok TOKEN_SEP '')'', tok TOKEN_SEP ''{'', tok TOKEN_SEP ''}'']
   = Ok (TreeNode NODE_BLOCK []
           [Some (TreeNode NODE_DECLS [] []),
            Some (TreeNode NODE_STMTS []
              [Some (TreeNode NODE_FOR [] [None, None, None, Some (TreeNode NODE_BLOCK [] [])])])])"
  unfolding fuel5 by (simp add: parser_eval)

text \<open>
  Claim C9.  A declaration is said to need at least one declarator, so that \<open>int ;\<close>
  gives the fatal missing-identifier error.  The declarator loop begins each round by
  leaving on a semicolon (an empty declaration is allowed): on \<open>int ;\<close> it returns with
  no identifier and no error; the parse then ends with the fatal "Expected ';' after
  declaration", not with the missing-identifier error, and \<open>int ; ;\<close> is accepted as a
  declaration group without identifiers.
\<close>

theorem empty_declaration_is_not_missing_identifier:
  "decls_vars ''int'' \<lparr>tokens = [tok TOKEN_KEYWORD ''int'', tok TOKEN_SEP '';''], current = 1\<rparr>
     [Some (TreeNode NODE_TYPE ''int'' [])]
   = Ok ([Some (TreeNode NODE_TYPE ''int'' [])],
         \<lparr>tokens = [tok TOKEN_KEYWORD ''int'', tok TOKEN_SEP '';''], current = 2\<rparr>)
   \<and> parse 0 [tok TOKEN_KEYWORD ''int'', tok TOKEN_SEP '';'']
     = Fatal ''Syntax error: Expected ';' after declaration (Actual: ) at token: ''
   \<and> parse 0 [tok TOKEN_KEYWORD ''int'', tok TOKEN_SEP '';'']
     \<noteq> Fatal ''Syntax error: Expected variable name in declaration at token: ;''
   \<and> parse 1 [tok TOKEN_KEYWORD ''int'', tok TOKEN_SEP '';'', tok TOKEN_SEP '';'']
     = Ok (TreeNode NODE_BLOCK []
             [Some (TreeNode NODE_DECLS []
                [Some (TreeNode NODE_LIST [] [Some (TreeNode NODE_TYPE ''int'' [])])]),
              Some (TreeNode NODE_STMTS [] [])])"
  by (simp add: parser_eval)

text \<open>
  Claim C9, as amended.  A declaration is a type keyword followed by zero or more
  declarators.  A semicolon at the place of a declarator ends the declarator list at
  once, without an error and without adding a child; so when the type keyword is
  directly followed by a semicolon, the declaration group never ends in the
  missing-identifier error.  That error is what the declarator loop gives when the token
  at the place of a declarator is neither a semicolon nor an identifier.
\<close>

theorem declarator_list_may_be_empty:
  "(check2 p TOKEN_SEP '';'' \<longrightarrow> decls_vars ty p kids = Ok (kids, snd (advance p)))
   \<and> (\<not> check2 q TOKEN_SEP '';'' \<and> \<not> check1 q TOKEN_ID \<longrightarrow>
        decls_vars ty q kids = error q ''Expected variable name in declaration'')
   \<and> (is_type_keyword r \<and> check2 (snd (advance r)) TOKEN_SEP '';'' \<longrightarrow>
        decl_group r
          \<noteq> Fatal (''Syntax error: Expected variable name in declaration at token: '' @ v))"
proof -
  have a: "check2 p TOKEN_SEP '';'' \<longrightarrow> decls_vars ty p kids = Ok (kids, snd (advance p))"
    by (simp add: decls_vars.simps [of ty p] match2_def)
  have b: "\<not> check2 q TOKEN_SEP '';'' \<and> \<not> check1 q TOKEN_ID \<longrightarrow>
        decls_vars ty q kids = error q ''Expected variable name in declaration''"
    by (simp add: decls_vars.simps [of ty q] match2_def declarator_def consume1_def error_def)
  have c: "decl_group r
      \<noteq> Fatal (''Syntax error: Expected variable name in declaration at token: '' @ v)"
    if k: "is_type_keyword r" and s: "check2 (snd (advance r)) TOKEN_SEP '';''"
  proof -
    from k have "snd (match_type r) = snd (advance r)"
      by (auto simp: is_type_keyword_def match_type_def match2_def)
    then obtain ty' where mt: "match_type r = (ty', snd (advance r))"
      by (cases "match_type r") auto
    from s have "decls_vars ty' (snd (advance r)) [Some (TreeNode NODE_TYPE ty' [])]
        = Ok ([Some (TreeNode NODE_TYPE ty' [])], snd (advance (snd (advance r))))"
      by (simp add: decls_vars.simps [of ty' "snd (advance r)"] match2_def)
    with mt show ?thesis
      by (simp add: decl_group_def consume2_def error_def)
  qed
  from a b c show ?thesis by blast
qed

theorem declarator_list_may_be_empty_witness:
  "(let p = \<lparr>tokens = [tok TOKEN_KEYWORD ''int'', tok TOKEN_SEP '';''], current = 1\<rparr>
    in check2 p TOKEN_SEP '';'' \<and>
       decls_vars ''int'' p [Some (TreeNode NODE_TYPE ''int'' [])]
         = Ok ([Some (TreeNode NODE_TYPE ''int'' [])], p\<lparr>current := 2\<rparr>))
   \<and> (let q = \<lparr>tokens = [tok TOKEN_KEYWORD ''int'', tok TOKEN_OP ''=''], current = 1\<rparr>
      in \<not> check2 q TOKEN_SEP '';'' \<and> \<not> check1 q TOKEN_ID \<and>
         decls_vars ''int'' q [Some (TreeNode NODE_TYPE ''int'' [])]
           = Fatal ''Syntax error: Expected variable name in declaration at token: ='')
   \<and> (let r = \<lparr>tokens = [tok TOKEN_KEYWORD ''int'', tok TOKEN_SEP '';''], current = 0\<rparr>
      in is_type_keyword r \<and> check2 (snd (advance r)) TOKEN_SEP '';'' \<and>
         decl_group r \<noteq> Fatal ''Syntax error: Expected variable name in declaration at token: ;'')"
  using
    declarator_list_may_be_empty
      [of "\<lparr>tokens = [tok TOKEN_KEYWORD ''int'', tok TOKEN_SEP '';''], current = 1\<rparr>"
          "''int''" "[Some (TreeNode NODE_TYPE ''int'' [])]"
          "\<lparr>tokens = [tok TOKEN_KEYWORD ''int'', tok TOKEN_OP ''=''], current = 1\<rparr>"
          "\<lparr>tokens = [tok TOKEN_KEYWORD ''int'', tok TOKEN_SEP '';''], current = 0\<rparr>"
          "'';''"]
  by (simp add: tok_def sentinel_def peek_def previous_def isAtEnd_def advance_def check1_def
        check2_def is_type_keyword_def error_def Let_def)

text \<open>
  Claim C10.  The token accessors of the parser are total and stay inside the token
  vector: \<open>peek\<close> gives the empty error token when the index is at or beyond the end,
  and then \<open>isAtEnd\<close> holds; \<open>previous\<close> gives the same token at index 0; \<open>advance\<close>
  leaves the index where it is once \<open>isAtEnd\<close> holds.  The index starts at 0 and only
  \<open>advance\<close> moves it, so it never passes the end, and what \<open>peek\<close> and \<open>previous\<close>
  return is always that token or an element of the vector.  A parse of any token
  sequence, with or without an end token in it, returns a tree or exits with a
  diagnostic: a step budget of three per token and three more is never used up, and no
  larger budget changes the answer.
\<close>

theorem token_accessors_are_total:
  "(length (tokens p) \<le> current p \<longrightarrow> peek p = sentinel \<and> isAtEnd p)
   \<and> (current q = 0 \<longrightarrow> previous q = sentinel)
   \<and> (isAtEnd r \<longrightarrow> snd (advance r) = r)
   \<and> (peek s = sentinel \<or> peek s \<in> set (tokens s))
   \<and> (wf_parser s \<longrightarrow>
        wf_parser (snd (advance s)) \<and> (previous s = sentinel \<or> previous s \<in> set (tokens s)))
   \<and> wf_parser \<lparr>tokens = ts, current = 0\<rparr>
   \<and> (3 * length ts + 3 \<le> n \<longrightarrow>
        parse n ts \<noteq> Timeout \<and> parse n ts = parse (3 * length ts + 3) ts)"
proof -
  have a: "length (tokens p) \<le> current p \<longrightarrow> peek p = sentinel \<and> isAtEnd p"
    by (simp add: peek_def isAtEnd_def sentinel_def)
  have b: "current q = 0 \<longrightarrow> previous q = sentinel"
    by (simp add: previous_def)
  have c: "isAtEnd r \<longrightarrow> snd (advance r) = r"
    by (simp add: advance_def)
  have d: "peek s = sentinel \<or> peek s \<in> set (tokens s)"
    by (simp add: peek_def)
  have e: "wf_parser s \<longrightarrow>
        wf_parser (snd (advance s)) \<and> (previous s = sentinel \<or> previous s \<in> set (tokens s))"
  proof
    assume w: "wf_parser s"
    have "wf_parser (snd (advance s))"
    proof (cases "isAtEnd s")
      case True
      with w show ?thesis by (simp add: advance_def)
    next
      case False
      from not_isAtEnd_less [OF False] show ?thesis
        by (simp add: advance_def Let_def wf_parser_def False)
    qed
    moreover from w have "previous s = sentinel \<or> previous s \<in> set (tokens s)"
      by (auto simp: previous_def wf_parser_def)
    ultimately show "wf_parser (snd (advance s)) \<and>
        (previous s = sentinel \<or> previous s \<in> set (tokens s))" ..
  qed
  have f: "wf_parser \<lparr>tokens = ts, current = 0\<rparr>"
    by (simp add: wf_parser_def)
  have g: "3 * length ts + 3 \<le> n \<longrightarrow>
        parse n ts \<noteq> Timeout \<and> parse n ts = parse (3 * length ts + 3) ts"
    using parse_total [of ts n] by blast
  from a b c d e f g show ?thesis by blast
qed

theorem token_accessors_are_total_witness:
  "(let p = \<lparr>tokens = [tok TOKEN_ID ''a''], current = 1\<rparr>
    in length (tokens p) \<le> current p \<and> peek p = sentinel \<and> isAtEnd p \<and> snd (advance p) = p)
   \<and> (let q = \<lparr>tokens = [tok TOKEN_ID ''a''], current = 0\<rparr>
      in current q = 0 \<and> previous q = sentinel)
   \<and> (let s = \<lparr>tokens = [tok TOKEN_ID ''a'', tok TOKEN_OP ''++''], current = 1\<rparr>
      in wf_parser s \<and> wf_parser (snd (advance s)) \<and> previous s \<in> set (tokens s))
   \<and> (3 * length [tok TOKEN_ID ''a'', tok TOKEN_OP ''++'', tok TOKEN_SEP '';''] + 3 \<le> (12::nat) \<and>
        parse 12 [tok TOKEN_ID ''a'', tok TOKEN_OP ''++'', tok TOKEN_SEP '';''] \<noteq> Timeout)"
  using
    token_accessors_are_total
      [of "\<lparr>tokens = [tok TOKEN_ID ''a''], current = 1\<rparr>"
          "\<lparr>tokens = [tok TOKEN_ID ''a''], current = 0\<rparr>"
          "\<lparr>tokens = [tok TOKEN_ID ''a''], current = 1\<rparr>"
          "\<lparr>tokens = [tok TOKEN_ID ''a'', tok TOKEN_OP ''++''], current = 1\<rparr>"
          "[tok TOKEN_ID ''a'', tok TOKEN_OP ''++'', tok TOKEN_SEP '';'']" 12]
  by (simp add: tok_def sentinel_def peek_def previous_def isAtEnd_def wf_parser_def)

lemmas lexer_eval =
  Lexer_def keyword_table_def operators_def separators_def bit_operators_def table_count_def
  NUL_def newline_def isspace_def isdigit_def isalpha_def isalnum_def digits.simps to_string_def
  Lexer_peek_def peek_next_def Lexer_advance_def skip_line.simps skip_block.simps
  line_comment_start_def block_comment_start_def skipWhitespace.simps makeToken_def makeError_def
  scan_while.simps recognizeIdOrKeyword_def fraction_digits_def second_point_def
  number_fraction_def number_suffix_def recognizeNumber_def single_symbol_def double_symbol_def
  recognizeOpOrSep_def getNextToken_def end_of_input_def scan_all.simps position_of_def Let_def

text \<open>
  Claim C4.  A character at a token start that begins no two-character entry is said to
  be looked up in the one-character operator table, then the bitwise table, then the
  separator table, so that a lone \<open>~\<close>, \<open>^\<close>, \<open>&\<close> or \<open>|\<close> is a bitwise-operator
  token.  With the operator table first, \<open>&\<close> and \<open>|\<close>, which are in it, are operator
  tokens; \<open>~\<close> and \<open>^\<close> do not reach the tables and are error tokens.
\<close>

theorem lone_bitwise_symbols_are_not_bitwise_tokens:
  "lex_type (fst (getNextToken (Lexer ''&''))) = LEX_OP
   \<and> lex_type (fst (getNextToken (Lexer ''|''))) = LEX_OP
   \<and> lex_type (fst (getNextToken (Lexer ''~''))) = LEX_ERROR
   \<and> lex_type (fst (getNextToken (Lexer ''^''))) = LEX_ERROR"
  by (simp add: lexer_eval)

text \<open>
  Claim C4, as amended.  A character at a token start that is in the one-character
  operator table or separator table and begins no two-character operator or bitwise
  entry gives a one-character token whose kind is found in the operator table, then the
  bitwise table, then the separator table; so a lone \<open>&\<close> or \<open>|\<close> is an operator
  token.  A character at a token start that is no letter, digit or underscore, is not
  the end of input and is in none of the three one-character tables gives an error
  token, and the scan moves exactly one character past it.
\<close>

theorem symbol_tables_are_tried_in_order:
  "(let s = skipWhitespace s0; c = Lexer_peek s; s1 = snd (Lexer_advance s) in
      (table_count operators [c] \<or> table_count separators [c]) \<and>
      \<not> table_count operators [c, Lexer_peek s1] \<and>
      \<not> table_count bit_operators [c, Lexer_peek s1] \<longrightarrow>
      getNextToken s0 =
        (makeToken s1
           (if table_count operators [c] then LEX_OP
            else if table_count bit_operators [c] then LEX_BIT_OP
            else LEX_SEP) [c], s1))
   \<and> (let t = skipWhitespace t0; c = Lexer_peek t in
        c \<noteq> NUL \<and> \<not> isalpha c \<and> c \<noteq> CHR ''_'' \<and> \<not> isdigit c \<and>
        \<not> table_count operators [c] \<and> \<not> table_count bit_operators [c] \<and>
        \<not> table_count separators [c] \<longrightarrow>
        lex_type (fst (getNextToken t0)) = LEX_ERROR \<and>
        lex_value (fst (getNextToken t0)) = msg_illegal_character @ [c] \<and>
        snd (getNextToken t0) = snd (Lexer_advance t) \<and>
        pos (snd (getNextToken t0)) = Suc (pos t))
   \<and> lex_type (fst (getNextToken (Lexer ''&''))) = LEX_OP
   \<and> lex_type (fst (getNextToken (Lexer ''|''))) = LEX_OP"
proof -
  have a: "getNextToken s0 =
        (makeToken (snd (Lexer_advance (skipWhitespace s0)))
           (if table_count operators [Lexer_peek (skipWhitespace s0)] then LEX_OP
            else if table_count bit_operators [Lexer_peek (skipWhitespace s0)] then LEX_BIT_OP
            else LEX_SEP) [Lexer_peek (skipWhitespace s0)], snd (Lexer_advance (skipWhitespace s0)))"
    if t: "table_count operators [Lexer_peek (skipWhitespace s0)] \<or>
           table_count separators [Lexer_peek (skipWhitespace s0)]"
    and n1: "\<not> table_count operators
               [Lexer_peek (skipWhitespace s0), Lexer_peek (snd (Lexer_advance (skipWhitespace s0)))]"
    and n2: "\<not> table_count bit_operators
               [Lexer_peek (skipWhitespace s0), Lexer_peek (snd (Lexer_advance (skipWhitespace s0)))]"
  proof -
    let ?s = "skipWhitespace s0"
    from t have cls: "\<not> isalpha (Lexer_peek ?s)" "Lexer_peek ?s \<noteq> CHR ''_''" "\<not> isdigit (Lexer_peek ?s)"
      by (auto simp: table_count_def operators_def separators_def isalpha_def isdigit_def
            split: if_splits)
    from table_count_not_NUL [OF t] have "pos ?s < length (source ?s)"
      by (rule Lexer_peek_in_range)
    then have f: "fst (Lexer_advance ?s) = Lexer_peek ?s"
      by (simp add: Lexer_advance_def Lexer_peek_def Let_def)
    from n1 n2 f have r: "recognizeOpOrSep ?s =
        (single_symbol (snd (Lexer_advance ?s)) [Lexer_peek ?s], snd (Lexer_advance ?s))"
      by (simp add: recognizeOpOrSep_def Let_def table_count_def)
    from t cls r show ?thesis
      by (auto simp: getNextToken_def Let_def single_symbol_def)
  qed
  have b: "lex_type (fst (getNextToken t0)) = LEX_ERROR \<and>
        lex_value (fst (getNextToken t0)) = msg_illegal_character @ [Lexer_peek (skipWhitespace t0)] \<and>
        snd (getNextToken t0) = snd (Lexer_advance (skipWhitespace t0)) \<and>
        pos (snd (getNextToken t0)) = Suc (pos (skipWhitespace t0))"
    if "Lexer_peek (skipWhitespace t0) \<noteq> NUL" "\<not> isalpha (Lexer_peek (skipWhitespace t0))"
      "Lexer_peek (skipWhitespace t0) \<noteq> CHR ''_''" "\<not> isdigit (Lexer_peek (skipWhitespace t0))"
      "\<not> table_count operators [Lexer_peek (skipWhitespace t0)]"
      "\<not> table_count separators [Lexer_peek (skipWhitespace t0)]"
  proof -
    from that(1) have "pos (skipWhitespace t0) < length (source (skipWhitespace t0))"
      by (rule Lexer_peek_in_range)
    with that show ?thesis
      by (simp add: getNextToken_def Let_def Lexer_advance_pos)
  qed
  have c: "lex_type (fst (getNextToken (Lexer ''&''))) = LEX_OP
     \<and> lex_type (fst (getNextToken (Lexer ''|''))) = LEX_OP"
    by (simp add: lexer_eval)
  from a b c show ?thesis unfolding Let_def by blast
qed

theorem symbol_tables_are_tried_in_order_witness:
  "(let s = skipWhitespace (Lexer ''  | x''); c = Lexer_peek s; s1 = snd (Lexer_advance s) in
      (table_count operators [c] \<or> table_count separators [c]) \<and>
      \<not> table_count operators [c, Lexer_peek s1] \<and>
      \<not> table_count bit_operators [c, Lexer_peek s1] \<and>
      getNextToken (Lexer ''  | x'') =
        (\<lparr>lex_type = LEX_OP, lex_value = ''|'', lex_line = 1, lex_column = 3\<rparr>,
         \<lparr>source = ''  | x'', pos = 3, line = 1, column = 4\<rparr>))
   \<and> (let t = skipWhitespace (Lexer '' @''); c = Lexer_peek t in
        c \<noteq> NUL \<and> \<not> isalpha c \<and> c \<noteq> CHR ''_'' \<and> \<not> isdigit c \<and>
        \<not> table_count operators [c] \<and> \<not> table_count bit_operators [c] \<and>
        \<not> table_count separators [c] \<and>
        lex_type (fst (getNextToken (Lexer '' @''))) = LEX_ERROR \<and>
        pos (snd (getNextToken (Lexer '' @''))) = 2)"
  using symbol_tables_are_tried_in_order [of "Lexer ''  | x''" "Lexer '' @''"]
  by (simp add: lexer_eval)

text \<open>
  Claim C5.  Every token, error tokens included, is said to record the line and column
  of the first character of its lexeme.  The error token for \<open>12abc\<close> records line 1,
  column 6, the position after the lexeme, where its first character is at line 1,
  column 1; the error token for the character \<open>@\<close> records line 0, column 0.  The
  tokens that are not errors do record the position of their first character (lemma
  \<open>scan_all_positions\<close>), as the identifier on the third line of a text with comments
  shows.
\<close>

theorem error_tokens_do_not_record_their_start:
  "fst (getNextToken (Lexer ''12abc''))
   = \<lparr>lex_type = LEX_ERROR, lex_value = msg_illegal_number @ ''12abc at line 1:6'',
      lex_line = 1, lex_column = 6\<rparr>
   \<and> position_of ''12abc'' 0 = (1, 1)
   \<and> fst (getNextToken (Lexer ''@''))
     = \<lparr>lex_type = LEX_ERROR, lex_value = msg_illegal_character @ ''@'',
        lex_line = 0, lex_column = 0\<rparr>
   \<and> position_of ''@'' 0 = (1, 1)
   \<and> fst (getNextToken (Lexer (''# c'' @ [newline] @ ''/* d'' @ [newline] @ ''*/ xy'')))
     = \<lparr>lex_type = LEX_ID, lex_value = ''xy'', lex_line = 3, lex_column = 4\<rparr>
   \<and> position_of (''# c'' @ [newline] @ ''/* d'' @ [newline] @ ''*/ xy'') 12 = (3, 4)"
  by (simp add: lexer_eval)

text \<open>
  Claim C6.  The input \<open>12abc\<close> gives exactly one error token for the whole run (not an
  integer followed by an identifier), and \<open>1.2.3\<close> gives exactly one error token.  After
  an error token the scan goes on: the driver keeps the token and continues from the
  state behind the offending lexeme, which is further in the same text.  The driver
  stops only where the text ends (the cursor reads the terminating zero).
\<close>

theorem illegal_literals_are_one_error_token:
  "scan_all (Lexer ''12abc'')
   = [\<lparr>lex_type = LEX_ERROR, lex_value = msg_illegal_number @ ''12abc at line 1:6'',
       lex_line = 1, lex_column = 6\<rparr>]
   \<and> pos (snd (getNextToken (Lexer ''12abc''))) = 5
   \<and> scan_all (Lexer ''1.2.3'')
     = [\<lparr>lex_type = LEX_ERROR, lex_value = msg_illegal_number @ ''1.2.3 at line 1:6'',
         lex_line = 1, lex_column = 6\<rparr>]
   \<and> pos (snd (getNextToken (Lexer ''1.2.3''))) = 5
   \<and> (lex_type (fst (getNextToken s)) = LEX_ERROR \<and> lex_value (fst (getNextToken s)) \<noteq> [] \<longrightarrow>
        scan_all s = fst (getNextToken s) # scan_all (snd (getNextToken s)) \<and>
        source (snd (getNextToken s)) = source s \<and> pos s < pos (snd (getNextToken s)))
   \<and> (end_of_input (fst (getNextToken s')) \<longleftrightarrow> Lexer_peek (skipWhitespace s') = NUL)"
proof -
  have a: "scan_all (Lexer ''12abc'')
   = [\<lparr>lex_type = LEX_ERROR, lex_value = msg_illegal_number @ ''12abc at line 1:6'',
       lex_line = 1, lex_column = 6\<rparr>]
   \<and> pos (snd (getNextToken (Lexer ''12abc''))) = 5"
    by (simp add: lexer_eval)
  have b: "scan_all (Lexer ''1.2.3'')
     = [\<lparr>lex_type = LEX_ERROR, lex_value = msg_illegal_number @ ''1.2.3 at line 1:6'',
         lex_line = 1, lex_column = 6\<rparr>]
   \<and> pos (snd (getNextToken (Lexer ''1.2.3''))) = 5"
    by (simp add: lexer_eval)
  have c: "scan_all s = fst (getNextToken s) # scan_all (snd (getNextToken s)) \<and>
        source (snd (getNextToken s)) = source s \<and> pos s < pos (snd (getNextToken s))"
    if "lex_type (fst (getNextToken s)) = LEX_ERROR" "lex_value (fst (getNextToken s)) \<noteq> []"
  proof -
    from that have e: "\<not> end_of_input (fst (getNextToken s))" by (simp add: end_of_input_def)
    from getNextToken_progress [OF e] e show ?thesis
      by (simp add: scan_all.simps [of s])
  qed
  from a b c end_of_input_iff [of s'] show ?thesis by blast
qed

theorem illegal_literals_are_one_error_token_witness:
  "lex_type (fst (getNextToken (Lexer ''12abc x = 1.5;''))) = LEX_ERROR
   \<and> lex_value (fst (getNextToken (Lexer ''12abc x = 1.5;''))) \<noteq> []
   \<and> pos (Lexer ''12abc x = 1.5;'') < pos (snd (getNextToken (Lexer ''12abc x = 1.5;'')))
   \<and> scan_all (Lexer ''12abc x = 1.5;'')
     = [\<lparr>lex_type = LEX_ERROR, lex_value = msg_illegal_number @ ''12abc at line 1:6'',
         lex_line = 1, lex_column = 6\<rparr>,
        \<lparr>lex_type = LEX_ID, lex_value = ''x'', lex_line = 1, lex_column = 7\<rparr>,
        \<lparr>lex_type = LEX_OP, lex_value = ''='', lex_line = 1, lex_column = 9\<rparr>,
        \<lparr>lex_type = LEX_FLOAT, lex_value = ''1.5'', lex_line = 1, lex_column = 11\<rparr>,
        \<lparr>lex_type = LEX_SEP, lex_value = '';'', lex_line = 1, lex_column = 14\<rparr>]"
  using illegal_literals_are_one_error_token [of "Lexer ''12abc x = 1.5;''"]
  by (simp add: lexer_eval)

end
